theory Spec2Isabelle
  imports Complex_Main
begin

section \<open>Python lists and loops\<close>

text \<open>
  The graph of \<^verbatim>\<open>social_network.py\<close> is a Python list of lists of integers,
  \<^verbatim>\<open>self.graph[i][j] == 1\<close> meaning that user \<open>i\<close> follows user \<open>j\<close>. User ids are
  Python integers, so an id may be negative; a Python list accepts the indices
  \<open>-len \<dots> len - 1\<close> (a negative index counts from the end) and raises
  \<^verbatim>\<open>IndexError\<close> on every other one. An exception is the \<open>Inl\<close> branch of a result.
\<close>

datatype error = IndexError | KeyError | ValueError

type_synonym graph = "int list list"

definition norm_index :: "nat \<Rightarrow> int \<Rightarrow> nat option" where
  "norm_index n i =
     (if 0 \<le> i then (if i < int n then Some (nat i) else None)
      else (if - int n \<le> i then Some (nat (int n + i)) else None))"

definition list_get :: "'a list \<Rightarrow> int \<Rightarrow> error + 'a" where
  "list_get xs i =
     (case norm_index (length xs) i of None \<Rightarrow> Inl IndexError | Some k \<Rightarrow> Inr (xs ! k))"

definition list_set :: "'a list \<Rightarrow> int \<Rightarrow> 'a \<Rightarrow> error + 'a list" where
  "list_set xs i v =
     (case norm_index (length xs) i of None \<Rightarrow> Inl IndexError | Some k \<Rightarrow> Inr (xs[k := v]))"

text \<open>\<^verbatim>\<open>self.graph[i][j]\<close> and \<^verbatim>\<open>self.graph[i][j] = v\<close>. The rows of the matrix are
  distinct list objects (each is built by its own \<^verbatim>\<open>[0] * n\<close> or comprehension), so
  writing a cell changes one row only.\<close>

definition cell :: "graph \<Rightarrow> int \<Rightarrow> int \<Rightarrow> error + int" where
  "cell g i j = (case list_get g i of Inl e \<Rightarrow> Inl e | Inr row \<Rightarrow> list_get row j)"

definition set_cell :: "graph \<Rightarrow> int \<Rightarrow> int \<Rightarrow> int \<Rightarrow> error + graph" where
  "set_cell g i j v =
     (case list_get g i of
        Inl e \<Rightarrow> Inl e
      | Inr row \<Rightarrow>
          (case list_set row j v of
             Inl e \<Rightarrow> Inl e
           | Inr row' \<Rightarrow> list_set g i row'))"

text \<open>\<^verbatim>\<open>range(n)\<close>, and a \<^verbatim>\<open>for\<close> loop whose body may raise: the loop state is
  threaded through the iterations and the first exception ends the loop.\<close>

definition py_range :: "nat \<Rightarrow> int list" where
  "py_range n = map int [0..<n]"

primrec for_each :: "'a list \<Rightarrow> ('a \<Rightarrow> 's \<Rightarrow> error + 's) \<Rightarrow> 's \<Rightarrow> error + 's" where
  "for_each [] body s = Inr s"
| "for_each (x # xs) body s =
     (case body x s of Inl e \<Rightarrow> Inl e | Inr s' \<Rightarrow> for_each xs body s')"

text \<open>Sequencing of two steps that may raise.\<close>

definition and_then :: "error + 'a \<Rightarrow> ('a \<Rightarrow> error + 'b) \<Rightarrow> error + 'b" where
  "and_then r f = (case r of Inl e \<Rightarrow> Inl e | Inr x \<Rightarrow> f x)"

text \<open>A dict as the list of its items in insertion order, and \<^verbatim>\<open>max\<close> of a list
  (\<^verbatim>\<open>ValueError\<close> on the empty one).\<close>

definition dict_set :: "('k \<times> 'v) list \<Rightarrow> 'k \<Rightarrow> 'v \<Rightarrow> ('k \<times> 'v) list" where
  "dict_set d k v =
     (if k \<in> fst ` set d then map (\<lambda>(k', v'). if k' = k then (k', v) else (k', v')) d
      else d @ [(k, v)])"

definition py_max :: "'a::linorder list \<Rightarrow> error + 'a" where
  "py_max xs = (case xs of [] \<Rightarrow> Inl ValueError | x # rest \<Rightarrow> Inr (fold max rest x))"

section \<open>Graph store\<close>

text \<open>\<^verbatim>\<open>initialize_graph\<close>: the two database reads (\<^verbatim>\<open>return_last_user_id\<close>,
  \<^verbatim>\<open>get_all_follows\<close>) are the parameters. When a write raises, the exception leaves
  the function; only returns are results here.\<close>

definition initialize_graph :: "int \<Rightarrow> (int \<times> int) list \<Rightarrow> error + graph" where
  "initialize_graph max_user_id connections =
     (let size = max_user_id + 1 in
      for_each connections
        (\<lambda>(follower, followee) g.
           if follower < size \<and> followee < size then
             (if follower \<noteq> followee then set_cell g follower followee 1 else Inr g)
           else Inr g)
        (replicate (nat size) (replicate (nat size) 0)))"

definition create_node :: "graph \<Rightarrow> int \<Rightarrow> graph" where
  "create_node g user_id =
     (let current_size = int (length g) in
      if user_id \<ge> current_size then
        (let new_size = user_id + 1 in
         map (\<lambda>row. row @ replicate (nat (new_size - int (length row))) 0) g
           @ replicate (nat (new_size - current_size)) (replicate (nat new_size) 0))
      else g)"

definition remove_node :: "graph \<Rightarrow> int \<Rightarrow> error + graph" where
  "remove_node g user_id =
     (if user_id \<ge> int (length g) then Inr g
      else
        (let size = length g in
         case for_each (py_range size) (\<lambda>j g'. set_cell g' user_id j 0) g of
           Inl e \<Rightarrow> Inl e
         | Inr g1 \<Rightarrow> for_each (py_range size) (\<lambda>i g'. set_cell g' i user_id 0) g1))"

definition add_edge :: "graph \<Rightarrow> int \<Rightarrow> int \<Rightarrow> error + graph" where
  "add_edge g from_user to_user =
     (if from_user \<ge> int (length g) \<or> to_user \<ge> int (length g) then Inr g
      else if from_user = to_user then Inr g
      else set_cell g from_user to_user 1)"

definition remove_edge :: "graph \<Rightarrow> int \<Rightarrow> int \<Rightarrow> error + graph" where
  "remove_edge g from_user to_user =
     (if from_user \<ge> int (length g) \<or> to_user \<ge> int (length g) then Inr g
      else set_cell g from_user to_user 0)"

definition is_edge :: "graph \<Rightarrow> int \<Rightarrow> int \<Rightarrow> error + bool" where
  "is_edge g user1 user2 =
     (if user1 \<ge> int (length g) \<or> user2 \<ge> int (length g) then Inr False
      else (case cell g user1 user2 of Inl e \<Rightarrow> Inl e | Inr c \<Rightarrow> Inr (c = 1)))"

definition return_num_of_users :: "graph \<Rightarrow> int" where
  "return_num_of_users g = int (length g)"

definition get_followers :: "graph \<Rightarrow> int \<Rightarrow> error + int list" where
  "get_followers g user_id =
     (if user_id \<ge> int (length g) then Inr []
      else for_each (py_range (length g))
             (\<lambda>i followers.
                case cell g i user_id of
                  Inl e \<Rightarrow> Inl e
                | Inr c \<Rightarrow> Inr (if c = 1 then followers @ [i] else followers))
             [])"

definition get_following :: "graph \<Rightarrow> int \<Rightarrow> error + int list" where
  "get_following g user_id =
     (if user_id \<ge> int (length g) then Inr []
      else for_each (py_range (length g))
             (\<lambda>j following.
                case cell g user_id j of
                  Inl e \<Rightarrow> Inl e
                | Inr c \<Rightarrow> Inr (if c = 1 then following @ [j] else following))
             [])"

text \<open>The public mutations as commands, and a run of commands from a graph; a run stops
  at the first exception.\<close>

datatype command =
    Initialize int "(int \<times> int) list"
  | CreateNode int
  | RemoveNode int
  | AddEdge int int
  | RemoveEdge int int

fun exec :: "command \<Rightarrow> graph \<Rightarrow> error + graph" where
  "exec (Initialize max_user_id connections) g = initialize_graph max_user_id connections"
| "exec (CreateNode user_id) g = Inr (create_node g user_id)"
| "exec (RemoveNode user_id) g = remove_node g user_id"
| "exec (AddEdge from_user to_user) g = add_edge g from_user to_user"
| "exec (RemoveEdge from_user to_user) g = remove_edge g from_user to_user"

definition run :: "command list \<Rightarrow> graph \<Rightarrow> error + graph" where
  "run cmds g = for_each cmds exec g"

text \<open>The ids a command passes as indices into the matrix.\<close>

fun command_ids :: "command \<Rightarrow> int list" where
  "command_ids (Initialize max_user_id connections) = concat (map (\<lambda>(f, t). [f, t]) connections)"
| "command_ids (CreateNode user_id) = [user_id]"
| "command_ids (RemoveNode user_id) = [user_id]"
| "command_ids (AddEdge from_user to_user) = [from_user, to_user]"
| "command_ids (RemoveEdge from_user to_user) = [from_user, to_user]"

definition nonneg_ids :: "command list \<Rightarrow> bool" where
  "nonneg_ids cmds = list_all (\<lambda>c. list_all (\<lambda>i. 0 \<le> i) (command_ids c)) cmds"

text \<open>A matrix as the store keeps it: square, every cell 0 or 1.\<close>

definition square :: "graph \<Rightarrow> bool" where
  "square g = list_all (\<lambda>row. length row = length g) g"

definition bits :: "graph \<Rightarrow> bool" where
  "bits g = list_all (list_all (\<lambda>c. c = 0 \<or> c = 1)) g"

definition no_self_loops :: "graph \<Rightarrow> bool" where
  "no_self_loops g = list_all (\<lambda>i. g ! i ! i = 0) [0..<length g]"

definition shaped :: "graph \<Rightarrow> bool" where
  "shaped g = (square g \<and> bits g)"

definition store_ok :: "graph \<Rightarrow> bool" where
  "store_ok g = (square g \<and> bits g \<and> no_self_loops g)"

text \<open>The write \<^verbatim>\<open>self.graph[a][b] = v\<close> at indices that are in range.\<close>

definition put :: "graph \<Rightarrow> nat \<Rightarrow> nat \<Rightarrow> int \<Rightarrow> graph" where
  "put g a b v = g[a := (g ! a)[b := v]]"

section \<open>Traversal\<close>

text \<open>One iteration of the inner \<^verbatim>\<open>for neighbor in range(size)\<close> of
  \<^verbatim>\<open>get_degree_of_separation\<close>; the state is the queue, \<^verbatim>\<open>visited\<close> and \<^verbatim>\<open>distance\<close>.
  The test reads \<^verbatim>\<open>self.graph[neighbor][current]\<close>; Python's \<^verbatim>\<open>and\<close> reads
  \<^verbatim>\<open>visited[neighbor]\<close> only when the cell is 1.\<close>

definition degree_visit ::
  "graph \<Rightarrow> int \<Rightarrow> int \<Rightarrow> int list \<times> bool list \<times> int list
    \<Rightarrow> error + (int list \<times> bool list \<times> int list)" where
  "degree_visit g current neighbor st =
     (case st of (queue, visited, distance) \<Rightarrow>
        and_then (cell g neighbor current) (\<lambda>c.
          if c = 1 then
            and_then (list_get visited neighbor) (\<lambda>seen.
              if \<not> seen then
                and_then (list_set visited neighbor True) (\<lambda>visited'.
                and_then (list_get distance current) (\<lambda>d.
                and_then (list_set distance neighbor (d + 1)) (\<lambda>distance'.
                  Inr (queue @ [neighbor], visited', distance'))))
              else Inr st)
          else Inr st))"

text \<open>The same iteration in \<^verbatim>\<open>get_shortest_path\<close>, which tests
  \<^verbatim>\<open>self.graph[current][neighbor]\<close> and records \<^verbatim>\<open>parent[neighbor] = current\<close>.\<close>

definition path_visit ::
  "graph \<Rightarrow> int \<Rightarrow> int \<Rightarrow> int list \<times> bool list \<times> int list
    \<Rightarrow> error + (int list \<times> bool list \<times> int list)" where
  "path_visit g current neighbor st =
     (case st of (queue, visited, parent) \<Rightarrow>
        and_then (cell g current neighbor) (\<lambda>c.
          if c = 1 then
            and_then (list_get visited neighbor) (\<lambda>seen.
              if \<not> seen then
                and_then (list_set visited neighbor True) (\<lambda>visited'.
                and_then (list_set parent neighbor current) (\<lambda>parent'.
                  Inr (queue @ [neighbor], visited', parent')))
              else Inr st)
          else Inr st))"

text \<open>Both \<^verbatim>\<open>while queue\<close> loops end: an iteration removes the head of the queue, and a
  node is appended only when it turns from unvisited to visited. Twice the number of
  unvisited nodes plus the length of the queue decreases.\<close>

definition unvisited :: "bool list \<Rightarrow> nat" where
  "unvisited visited = length (filter (\<lambda>b. \<not> b) visited)"

definition bfs_measure :: "int list \<times> bool list \<times> int list \<Rightarrow> nat" where
  "bfs_measure st = (case st of (queue, visited, other) \<Rightarrow> 2 * unvisited visited + length queue)"

lemma unvisited_set_True:
  "k < length vs \<Longrightarrow> \<not> vs ! k \<Longrightarrow> Suc (unvisited (vs[k := True])) = unvisited vs"
proof (induction vs arbitrary: k)
  case Nil
  then show ?case by simp
next
  case (Cons v vs)
  then show ?case by (cases k) (auto simp: unvisited_def)
qed

lemma norm_index_less: "norm_index n i = Some k \<Longrightarrow> k < n"
  by (auto simp: norm_index_def split: if_splits)

lemma list_get_Inr:
  "list_get xs i = Inr x \<longleftrightarrow> (\<exists>k. norm_index (length xs) i = Some k \<and> x = xs ! k)"
  by (auto simp: list_get_def split: option.splits)

lemma list_set_Inr:
  "list_set xs i v = Inr ys \<longleftrightarrow> (\<exists>k. norm_index (length xs) i = Some k \<and> ys = xs[k := v])"
  by (auto simp: list_set_def split: option.splits)

lemma degree_visit_cases:
  assumes "degree_visit g current neighbor (q, vs, ds) = Inr (q', vs', ds')"
  shows "(q', vs', ds') = (q, vs, ds)
      \<or> (list_get vs neighbor = Inr False \<and> list_set vs neighbor True = Inr vs'
          \<and> q' = q @ [neighbor])"
  using assms
  by (auto simp: degree_visit_def and_then_def split: sum.splits if_splits)

lemma visit_measure:
  assumes "list_get vs neighbor = Inr False" "list_set vs neighbor True = Inr vs'"
  shows "Suc (unvisited vs') = unvisited vs"
proof -
  from assms obtain k where "norm_index (length vs) neighbor = Some k" "\<not> vs ! k" "vs' = vs[k := True]"
    by (auto simp: list_get_Inr list_set_Inr)
  then show ?thesis using unvisited_set_True norm_index_less by metis
qed

lemma degree_visit_measure:
  assumes "degree_visit g current neighbor (q, vs, ds) = Inr (q', vs', ds')"
  shows "2 * unvisited vs' + length q' \<le> 2 * unvisited vs + length q"
  using degree_visit_cases [OF assms] visit_measure [of vs neighbor vs'] by auto

lemma for_each_preserves:
  assumes "for_each xs body s = Inr t" "I s"
    and "\<And>x u u'. x \<in> set xs \<Longrightarrow> I u \<Longrightarrow> body x u = Inr u' \<Longrightarrow> I u'"
  shows "I t"
  using assms
proof (induction xs arbitrary: s)
  case Nil
  then show ?case by simp
next
  case (Cons x xs)
  from Cons.prems(1) obtain s' where s': "body x s = Inr s'" "for_each xs body s' = Inr t"
    by (auto split: sum.splits)
  have "I s'" using Cons.prems(2,3) s'(1) by (meson list.set_intros(1))
  then show ?case using Cons.IH [OF s'(2)] Cons.prems(3) by (meson list.set_intros(2))
qed

lemma degree_pass_measure:
  assumes "for_each xs (degree_visit g current) st = Inr st'"
  shows "bfs_measure st' \<le> bfs_measure st"
proof (rule for_each_preserves [OF assms, where I = "\<lambda>u. bfs_measure u \<le> bfs_measure st"])
  show "bfs_measure st \<le> bfs_measure st" by simp
next
  fix x u u' assume "bfs_measure u \<le> bfs_measure st" "degree_visit g current x u = Inr u'"
  then show "bfs_measure u' \<le> bfs_measure st"
    using degree_visit_measure [of g current x]
    by (cases u; cases u') (fastforce simp: bfs_measure_def)
qed

lemma path_visit_cases:
  assumes "path_visit g current neighbor (q, vs, ps) = Inr (q', vs', ps')"
  shows "(q', vs', ps') = (q, vs, ps)
      \<or> (list_get vs neighbor = Inr False \<and> list_set vs neighbor True = Inr vs'
          \<and> q' = q @ [neighbor])"
  using assms
  by (auto simp: path_visit_def and_then_def split: sum.splits if_splits)

lemma path_pass_measure:
  assumes "for_each xs (path_visit g current) st = Inr st'"
  shows "bfs_measure st' \<le> bfs_measure st"
proof (rule for_each_preserves [OF assms, where I = "\<lambda>u. bfs_measure u \<le> bfs_measure st"])
  show "bfs_measure st \<le> bfs_measure st" by simp
next
  fix x u u' assume u: "bfs_measure u \<le> bfs_measure st" "path_visit g current x u = Inr u'"
  obtain q vs ps q' vs' ps' where [simp]: "u = (q, vs, ps)" "u' = (q', vs', ps')"
    by (cases u; cases u') auto
  from path_visit_cases [of g current x q vs ps q' vs' ps'] u(2)
  have "bfs_measure u' \<le> bfs_measure u"
    using visit_measure [of vs x vs'] by (auto simp: bfs_measure_def)
  then show "bfs_measure u' \<le> bfs_measure st" using u(1) by simp
qed

text \<open>\<^verbatim>\<open>get_degree_of_separation\<close>: the loop \<^verbatim>\<open>while queue\<close> on the queue, \<^verbatim>\<open>visited\<close> and
  \<^verbatim>\<open>distance\<close>, and the function with its guards and the initial writes at
  \<^verbatim>\<open>start_user\<close>.\<close>

function degree_loop :: "graph \<Rightarrow> int \<Rightarrow> int list \<Rightarrow> bool list \<Rightarrow> int list \<Rightarrow> error + int" where
  "degree_loop g target [] visited distance = Inr (- 1)"
| "degree_loop g target (current # queue) visited distance =
     (if current = target then list_get distance current
      else
        (case for_each (py_range (length g)) (degree_visit g current) (queue, visited, distance) of
           Inl e \<Rightarrow> Inl e
         | Inr (queue', visited', distance') \<Rightarrow> degree_loop g target queue' visited' distance'))"
  by pat_completeness auto

termination
proof (relation "measure (\<lambda>(g, target, queue, visited, distance). bfs_measure (queue, visited, distance))")
  show "wf (measure (\<lambda>(g, target, queue, visited, distance). bfs_measure (queue, visited, distance)))"
    by simp
next
  fix g :: graph and target current :: int and queue visited distance x2 x y xa ya
  assume "for_each (py_range (length g)) (degree_visit g current) (queue, visited, distance) = Inr x2"
    "(x, y) = x2" "(xa, ya) = y"
  then have "bfs_measure (x, xa, ya) \<le> bfs_measure (queue, visited, distance)"
    using degree_pass_measure by metis
  then show "((g, target, x, xa, ya), g, target, current # queue, visited, distance)
       \<in> measure (\<lambda>(g, target, queue, visited, distance). bfs_measure (queue, visited, distance))"
    by (simp add: bfs_measure_def)
qed

definition get_degree_of_separation :: "graph \<Rightarrow> int \<Rightarrow> int \<Rightarrow> error + int" where
  "get_degree_of_separation g start_user target_user =
     (let size = length g in
      if start_user \<ge> int size \<or> target_user \<ge> int size then Inr (- 1)
      else if start_user = target_user then Inr 0
      else
        and_then (list_set (replicate size False) start_user True) (\<lambda>visited.
        and_then (list_set (replicate size (- 1)) start_user 0) (\<lambda>distance.
          degree_loop g target_user [start_user] visited distance)))"

text \<open>\<^verbatim>\<open>get_shortest_path\<close>: the search loop returns \<^verbatim>\<open>found\<close> and the parent pointers.
  The loop \<^verbatim>\<open>while curr != -1\<close> that walks the parent pointers back has no bound of its
  own, so it is a partial function: \<open>None\<close> is a walk that never ends.\<close>

function path_loop ::
  "graph \<Rightarrow> int \<Rightarrow> int list \<Rightarrow> bool list \<Rightarrow> int list \<Rightarrow> error + (bool \<times> int list)" where
  "path_loop g target [] visited parent = Inr (False, parent)"
| "path_loop g target (current # queue) visited parent =
     (if current = target then Inr (True, parent)
      else
        (case for_each (py_range (length g)) (path_visit g current) (queue, visited, parent) of
           Inl e \<Rightarrow> Inl e
         | Inr (queue', visited', parent') \<Rightarrow> path_loop g target queue' visited' parent'))"
  by pat_completeness auto

termination
proof (relation "measure (\<lambda>(g, target, queue, visited, parent). bfs_measure (queue, visited, parent))")
  show "wf (measure (\<lambda>(g, target, queue, visited, parent). bfs_measure (queue, visited, parent)))"
    by simp
next
  fix g :: graph and target current :: int and queue visited parent x2 x y xa ya
  assume "for_each (py_range (length g)) (path_visit g current) (queue, visited, parent) = Inr x2"
    "(x, y) = x2" "(xa, ya) = y"
  then have "bfs_measure (x, xa, ya) \<le> bfs_measure (queue, visited, parent)"
    using path_pass_measure by metis
  then show "((g, target, x, xa, ya), g, target, current # queue, visited, parent)
       \<in> measure (\<lambda>(g, target, queue, visited, parent). bfs_measure (queue, visited, parent))"
    by (simp add: bfs_measure_def)
qed

partial_function (option) backtrack :: "int list \<Rightarrow> int \<Rightarrow> int list \<Rightarrow> (error + int list) option" where
  "backtrack parent cur path =
     (if cur \<noteq> - 1 then
        (case list_get parent cur of
           Inl e \<Rightarrow> Some (Inl e)
         | Inr p \<Rightarrow> backtrack parent p (path @ [cur]))
      else Some (Inr path))"

declare backtrack.simps [code]

definition get_shortest_path :: "graph \<Rightarrow> int \<Rightarrow> int \<Rightarrow> (error + int list) option" where
  "get_shortest_path g start_user target_user =
     (let size = length g in
      if start_user \<ge> int size \<or> target_user \<ge> int size then Some (Inr [])
      else if start_user = target_user then Some (Inr [start_user])
      else
        (case list_set (replicate size False) start_user True of
           Inl e \<Rightarrow> Some (Inl e)
         | Inr visited \<Rightarrow>
             (case path_loop g target_user [start_user] visited (replicate size (- 1)) of
                Inl e \<Rightarrow> Some (Inl e)
              | Inr (found, parent) \<Rightarrow>
                  if found then
                    (case backtrack parent target_user [] of
                       None \<Rightarrow> None
                     | Some (Inl e) \<Rightarrow> Some (Inl e)
                     | Some (Inr path) \<Rightarrow> Some (Inr (rev path)))
                  else Some (Inr []))))"

text \<open>The scenario of the specification: four nodes and the edges \<open>0 \<rightarrow> 1\<close>, \<open>1 \<rightarrow> 2\<close>,
  \<open>2 \<rightarrow> 3\<close>.\<close>

definition chain4 :: graph where
  "chain4 = [[0, 1, 0, 0], [0, 0, 1, 0], [0, 0, 0, 1], [0, 0, 0, 0]]"

text \<open>The parent pointers of the search lead from \<open>v\<close> back to the start \<open>s\<close>, each step along
  an edge of the graph; \<open>p\<close> is the path from \<open>s\<close> to \<open>v\<close>. The invariant of the loop of
  \<open>get_shortest_path\<close>: every visited node has such a path.\<close>

inductive trail :: "graph \<Rightarrow> bool list \<Rightarrow> int list \<Rightarrow> int \<Rightarrow> int \<Rightarrow> int list \<Rightarrow> bool"
  for g :: graph and visited :: "bool list" and parent :: "int list" and s :: int where
  root: "0 \<le> s \<Longrightarrow> nat s < length parent \<Longrightarrow> visited ! nat s \<Longrightarrow> parent ! nat s = - 1
         \<Longrightarrow> trail g visited parent s s [s]"
| step: "trail g visited parent s u p \<Longrightarrow> 0 \<le> v \<Longrightarrow> nat v < length parent \<Longrightarrow> visited ! nat v
         \<Longrightarrow> parent ! nat v = u \<Longrightarrow> is_edge g u v = Inr True
         \<Longrightarrow> trail g visited parent s v (p @ [v])"

definition path_inv :: "graph \<Rightarrow> int \<Rightarrow> int list \<Rightarrow> bool list \<Rightarrow> int list \<Rightarrow> bool" where
  "path_inv g s queue visited parent =
     (length visited = length g \<and> length parent = length g
      \<and> (\<forall>q\<in>set queue. 0 \<le> q \<and> nat q < length g \<and> visited ! nat q)
      \<and> (\<forall>v<length g. visited ! v \<longrightarrow> (\<exists>p. trail g visited parent s (int v) p)))"

section \<open>Ranking\<close>

text \<open>In this section a Python float is a real number and the arithmetic of the scores is
  exact: exact arithmetic is what the statement about \<^verbatim>\<open>calculate_pagerank\<close> is about, and
  what is stated of \<^verbatim>\<open>calculate_influence\<close> (the bounds 0 and 1 and the values 0 and 1 of
  a quotient of two integers) is the same after rounding.

  \<^verbatim>\<open>calculate_influence\<close>: the inner loop that counts the followers of \<open>i\<close> (column \<open>i\<close>),
  then the dict of the counts, their maximum and the dict of the scores.\<close>

definition count_followers :: "graph \<Rightarrow> int \<Rightarrow> error + int" where
  "count_followers g i =
     for_each (py_range (length g))
       (\<lambda>j count. and_then (cell g j i) (\<lambda>c. Inr (if c = 1 then count + 1 else count)))
       0"

definition calculate_influence :: "graph \<Rightarrow> error + (int \<times> real) list" where
  "calculate_influence g =
     (let N = length g in
      if N = 0 then Inr []
      else
        and_then
          (for_each (py_range N)
             (\<lambda>i follower_counts.
                and_then (count_followers g i) (\<lambda>count. Inr (dict_set follower_counts i count)))
             [])
          (\<lambda>follower_counts.
             and_then (py_max (map snd follower_counts)) (\<lambda>max_followers.
               if max_followers = 0 then Inr (map (\<lambda>i. (i, 0)) (py_range N))
               else
                 for_each (py_range N)
                   (\<lambda>i scores.
                      case map_of follower_counts i of
                        None \<Rightarrow> Inl KeyError
                      | Some c \<Rightarrow> Inr (dict_set scores i (real_of_int c / real_of_int max_followers)))
                   [])))"

text \<open>The in-degree of a node (its number of followers) and the largest in-degree.\<close>

definition in_degree :: "graph \<Rightarrow> nat \<Rightarrow> nat" where
  "in_degree g i = length (filter (\<lambda>j. g ! j ! i = 1) [0..<length g])"

definition max_in_degree :: "graph \<Rightarrow> nat" where
  "max_in_degree g = Max (set (map (in_degree g) [0..<length g]))"

text \<open>\<^verbatim>\<open>calculate_pagerank\<close>: the constants \<^verbatim>\<open>d = 0.85\<close> and \<^verbatim>\<open>iterations = 20\<close>;
  \<^verbatim>\<open>new_scores[j] += v\<close>; what one source node \<open>i\<close> hands out (to every node when
  \<^verbatim>\<open>sum(self.graph[i])\<close> is 0, else to the nodes it follows); one iteration of the outer
  loop; \<open>k\<close> iterations from the uniform scores; and the function, which divides the scores
  of the last iteration by their maximum.\<close>

definition damping :: real where
  "damping = 85 / 100"

definition iterations :: nat where
  "iterations = 20"

definition add_at :: "real list \<Rightarrow> int \<Rightarrow> real \<Rightarrow> error + real list" where
  "add_at xs j v = and_then (list_get xs j) (\<lambda>x. list_set xs j (x + v))"

definition distribute :: "graph \<Rightarrow> real list \<Rightarrow> int \<Rightarrow> real list \<Rightarrow> error + real list" where
  "distribute g scores i new_scores =
     (let N = length g in
      and_then (list_get g i) (\<lambda>row.
        let out_degree = sum_list row in
        if out_degree = 0 then
          and_then (list_get scores i) (\<lambda>s.
            let split_score = (damping * s) / real N in
            for_each (py_range N) (\<lambda>j ns. add_at ns j split_score) new_scores)
        else
          and_then (list_get scores i) (\<lambda>s.
            let share = (damping * s) / real_of_int out_degree in
            for_each (py_range N)
              (\<lambda>j ns. and_then (cell g i j) (\<lambda>c. if c = 1 then add_at ns j share else Inr ns))
              new_scores)))"

definition pagerank_round :: "graph \<Rightarrow> real list \<Rightarrow> error + real list" where
  "pagerank_round g scores =
     (let N = length g;
          base_score = (1 - damping) / real N in
      and_then (for_each (py_range N) (\<lambda>i ns. list_set ns i base_score) (replicate N 0))
        (\<lambda>new_scores. for_each (py_range N) (distribute g scores) new_scores))"

primrec pagerank_rounds :: "graph \<Rightarrow> nat \<Rightarrow> error + real list" where
  "pagerank_rounds g 0 = Inr (replicate (length g) (1 / real (length g)))"
| "pagerank_rounds g (Suc k) = and_then (pagerank_rounds g k) (pagerank_round g)"

definition calculate_pagerank :: "graph \<Rightarrow> error + (int \<times> real) list" where
  "calculate_pagerank g =
     (let N = length g in
      if N = 0 then Inr []
      else
        and_then (pagerank_rounds g iterations) (\<lambda>scores.
        and_then (if scores \<noteq> [] then py_max scores else Inr 1) (\<lambda>m.
          let max_score = (if m = 0 then 1 else m) in
          for_each (py_range N)
            (\<lambda>i result. and_then (list_get scores i) (\<lambda>s. Inr (dict_set result i (s / max_score))))
            [])))"

text \<open>A score vector of \<open>n\<close> non-negative entries that sum to \<open>tot\<close>.\<close>

definition mass :: "nat \<Rightarrow> real \<Rightarrow> real list \<Rightarrow> bool" where
  "mass n tot xs = (length xs = n \<and> sum_list xs = tot \<and> list_all (\<lambda>x. 0 \<le> x) xs)"

section \<open>Double precision\<close>

text \<open>
  The similarity scores of the source are Python floats: IEEE 754 binary64 values, each
  operation rounded to the nearest value of 53 significant bits, ties to the even one.
  A double is the real number it stands for. \<open>rne\<close> rounds a real to the nearest integer,
  ties to even; \<open>fl\<close> rounds a real to the nearest double: \<open>e\<close> is the exponent of the
  binade of \<open>x\<close> and \<open>2 powi (e - 52)\<close> the distance between neighbouring doubles there.
  The exponent is not bounded: no score, cardinality or square root of the source leaves
  the normal range of binary64, so overflow and subnormal numbers are left out.
\<close>

definition rne :: "real \<Rightarrow> int" where
  "rne y =
     (let f = \<lfloor>y\<rfloor>; r = y - of_int f in
      if r < 1 / 2 then f else if 1 / 2 < r then f + 1 else if even f then f else f + 1)"

definition fl :: "real \<Rightarrow> real" where
  "fl x =
     (if x = 0 then 0
      else (let e = \<lfloor>log 2 \<bar>x\<bar>\<rfloor>; ulp = 2 powi (e - 52) in of_int (rne (x / ulp)) * ulp))"

text \<open>\<^verbatim>\<open>float(n)\<close> of an integer, the product, sum and quotient of two doubles, and the
  quotient \<^verbatim>\<open>i / u\<close> of two integers, which Python rounds once. \<^verbatim>\<open>x ** 0.5\<close> is the
  \<^verbatim>\<open>pow\<close> of the C library; it is taken to return the correctly rounded square root, as
  it does at the arguments evaluated below.\<close>

definition py_float :: "int \<Rightarrow> real" where
  "py_float n = fl (of_int n)"

definition fmul :: "real \<Rightarrow> real \<Rightarrow> real" where
  "fmul x y = fl (x * y)"

definition fadd :: "real \<Rightarrow> real \<Rightarrow> real" where
  "fadd x y = fl (x + y)"

definition fdiv :: "real \<Rightarrow> real \<Rightarrow> real" where
  "fdiv x y = fl (x / y)"

definition int_truediv :: "int \<Rightarrow> int \<Rightarrow> real" where
  "int_truediv i u = fl (of_int i / of_int u)"

definition pow_half :: "real \<Rightarrow> real" where
  "pow_half x = fl (sqrt x)"


section \<open>Similarity and recommendation\<close>

text \<open>\<^verbatim>\<open>_jaccard_similarity\<close> on the following-sets of two users, and
  \<^verbatim>\<open>_cosine_similarity\<close> on two interest sets; both return doubles. In
  \<^verbatim>\<open>intersection / denominator\<close> the integer is converted to a double first.\<close>

definition jaccard_similarity :: "graph \<Rightarrow> int \<Rightarrow> int \<Rightarrow> error + real" where
  "jaccard_similarity g user1_id user2_id =
     and_then (get_following g user1_id) (\<lambda>l1.
     and_then (get_following g user2_id) (\<lambda>l2.
       let following1 = set l1; following2 = set l2 in
       if following1 = {} \<or> following2 = {} then Inr 0
       else
         (let intersection = card (following1 \<inter> following2);
              union = card (following1 \<union> following2) in
          if union = 0 then Inr 0 else Inr (int_truediv (int intersection) (int union)))))"

definition cosine_similarity :: "string set \<Rightarrow> string set \<Rightarrow> real" where
  "cosine_similarity interests1 interests2 =
     (if interests1 = {} \<or> interests2 = {} then 0
      else
        (let intersection = int (card (interests1 \<inter> interests2));
             magnitude1 = pow_half (py_float (int (card interests1)));
             magnitude2 = pow_half (py_float (int (card interests2)));
             denominator = fmul magnitude1 magnitude2 in
         if denominator = 0 then 0 else fdiv (py_float intersection) denominator))"

text \<open>\<^verbatim>\<open>get_recommendations\<close>: the database read \<^verbatim>\<open>return_user_by_id\<close> is a parameter that
  gives the interest list of a user, or \<open>None\<close> when the read finds nothing. One iteration
  of the loop over the candidates, then the function; the sort is stable and descending in
  the score, as \<^verbatim>\<open>sort(key=..., reverse=True)\<close> is. The literals \<^verbatim>\<open>0.6\<close> and \<^verbatim>\<open>0.4\<close> are
  the doubles nearest to 6/10 and 4/10, the two products and the sum are rounded, and the
  threshold is a double.\<close>

definition recommend_step ::
  "graph \<Rightarrow> (int \<Rightarrow> string list option) \<Rightarrow> int \<Rightarrow> real \<Rightarrow> string set \<Rightarrow> int set
    \<Rightarrow> int \<Rightarrow> (int \<times> real) list \<Rightarrow> error + (int \<times> real) list" where
  "recommend_step g return_user_by_id user_id threshold my_interests my_following
       candidate_id recommendations =
     (if candidate_id = user_id then Inr recommendations
      else if candidate_id \<in> my_following then Inr recommendations
      else
        and_then (jaccard_similarity g user_id candidate_id) (\<lambda>jaccard_score.
          case return_user_by_id candidate_id of
            None \<Rightarrow> Inr recommendations
          | Some cand \<Rightarrow>
              (let cosine_score = cosine_similarity my_interests (set cand);
                   final_score =
                     fadd (fmul (fl (6 / 10)) jaccard_score) (fmul (fl (4 / 10)) cosine_score) in
               if final_score > threshold
               then Inr (recommendations @ [(candidate_id, final_score)])
               else Inr recommendations)))"

definition get_recommendations ::
  "graph \<Rightarrow> (int \<Rightarrow> string list option) \<Rightarrow> int \<Rightarrow> real \<Rightarrow> error + (int \<times> real) list" where
  "get_recommendations g return_user_by_id user_id threshold =
     (let size = length g in
      if user_id \<ge> int size then Inr []
      else
        (case return_user_by_id user_id of
           None \<Rightarrow> Inr []
         | Some mine \<Rightarrow>
             and_then (get_following g user_id) (\<lambda>following.
             and_then
               (for_each (py_range size)
                  (recommend_step g return_user_by_id user_id threshold (set mine) (set following))
                  [])
               (\<lambda>recommendations. Inr (sort_key (\<lambda>x. - snd x) recommendations)))))"


section \<open>Facts about the list primitives\<close>

lemma norm_index_in_range:
  "0 \<le> i \<Longrightarrow> i < int n \<Longrightarrow> norm_index n i = Some (nat i)"
  by (simp add: norm_index_def)

lemma norm_index_too_large:
  "int n \<le> i \<Longrightarrow> norm_index n i = None"
  by (simp add: norm_index_def)

lemma list_get_in_range: "i < length xs \<Longrightarrow> list_get xs (int i) = Inr (xs ! i)"
  by (simp add: list_get_def norm_index_in_range)

lemma list_set_in_range: "i < length xs \<Longrightarrow> list_set xs (int i) v = Inr (xs[i := v])"
  by (simp add: list_set_def norm_index_in_range)

lemma for_each_append:
  "for_each (xs @ ys) body s =
     (case for_each xs body s of Inl e \<Rightarrow> Inl e | Inr s' \<Rightarrow> for_each ys body s')"
  by (induction xs arbitrary: s) (auto split: sum.splits)

lemma py_range_Suc: "py_range (Suc n) = py_range n @ [int n]"
  by (simp add: py_range_def)

lemma for_each_range_rule:
  assumes "P 0 s"
    and "\<And>k t. k < n \<Longrightarrow> P k t \<Longrightarrow> \<exists>t'. body (int k) t = Inr t' \<and> P (Suc k) t'"
  shows "\<exists>t. for_each (py_range n) body s = Inr t \<and> P n t"
  using assms(2)
proof (induction n)
  case 0
  then show ?case using assms(1) by (simp add: py_range_def)
next
  case (Suc n)
  then obtain t where t: "for_each (py_range n) body s = Inr t" "P n t"
    by (meson less_Suc_eq)
  from Suc.prems [of n t] t obtain t' where "body (int n) t = Inr t'" "P (Suc n) t'"
    by auto
  then show ?case using t by (simp add: py_range_Suc for_each_append)
qed

lemma for_each_succeeds:
  assumes "I s"
    and "\<And>x t. x \<in> set xs \<Longrightarrow> I t \<Longrightarrow> \<exists>t'. body x t = Inr t' \<and> I t'"
  shows "\<exists>t. for_each xs body s = Inr t \<and> I t"
  using assms
proof (induction xs arbitrary: s)
  case Nil
  then show ?case by simp
next
  case (Cons x xs)
  from Cons.prems obtain s' where s': "body x s = Inr s'" "I s'"
    by (meson list.set_intros(1))
  from Cons.IH [OF s'(2)] Cons.prems(2) obtain t where "for_each xs body s' = Inr t" "I t"
    by (meson list.set_intros(2))
  then show ?case using s'(1) by simp
qed

section \<open>Facts about the graph store\<close>

lemma square_nth: "square g \<Longrightarrow> i < length g \<Longrightarrow> length (g ! i) = length g"
  by (simp add: square_def list_all_length)

lemma squareI: "(\<And>i. i < length g \<Longrightarrow> length (g ! i) = length g) \<Longrightarrow> square g"
  by (simp add: square_def list_all_length)

lemma length_put [simp]: "length (put g a b v) = length g"
  by (simp add: put_def)

lemma square_put: "square g \<Longrightarrow> square (put g a b v)"
  by (rule squareI, cases "a < length g") (auto simp: put_def nth_list_update square_nth)

lemma nth_put:
  "square g \<Longrightarrow> a < length g \<Longrightarrow> b < length g \<Longrightarrow> i < length g \<Longrightarrow> j < length g \<Longrightarrow>
   put g a b v ! i ! j = (if i = a \<and> j = b then v else g ! i ! j)"
  by (simp add: put_def nth_list_update square_nth)

lemma cell_in_range:
  assumes "square g" "0 \<le> i" "i < int (length g)" "0 \<le> j" "j < int (length g)"
  shows "cell g i j = Inr (g ! nat i ! nat j)"
  using assms by (simp add: cell_def list_get_def norm_index_in_range square_nth)

lemma set_cell_in_range:
  assumes "square g" "0 \<le> i" "i < int (length g)" "0 \<le> j" "j < int (length g)"
  shows "set_cell g i j v = Inr (put g (nat i) (nat j) v)"
  using assms
  by (simp add: set_cell_def list_get_def list_set_def norm_index_in_range square_nth put_def)

lemma clear_row:
  assumes sq: "square g" and u: "u < length g"
  shows "\<exists>t. for_each (py_range (length g)) (\<lambda>j g'. set_cell g' (int u) j 0) g = Inr t
      \<and> length t = length g \<and> square t
      \<and> (\<forall>i<length g. \<forall>j<length g. t ! i ! j = (if i = u then 0 else g ! i ! j))"
proof -
  let ?n = "length g"
  let ?P = "\<lambda>k t. length t = ?n \<and> square t
      \<and> (\<forall>i<?n. \<forall>j<?n. t ! i ! j = (if i = u \<and> j < k then 0 else g ! i ! j))"
  have "\<exists>t. for_each (py_range ?n) (\<lambda>j g'. set_cell g' (int u) j 0) g = Inr t \<and> ?P ?n t"
  proof (rule for_each_range_rule [where P = ?P])
    show "?P 0 g" using sq by simp
  next
    fix k t assume k: "k < ?n" and P: "?P k t"
    then have "set_cell t (int u) (int k) 0 = Inr (put t u k 0)"
      using u by (simp add: set_cell_in_range)
    moreover have "?P (Suc k) (put t u k 0)"
      using P k u by (auto simp: square_put nth_put less_Suc_eq)
    ultimately show "\<exists>t'. set_cell t (int u) (int k) 0 = Inr t' \<and> ?P (Suc k) t'"
      by blast
  qed
  then show ?thesis by auto
qed

lemma clear_column:
  assumes sq: "square g" and u: "u < length g"
  shows "\<exists>t. for_each (py_range (length g)) (\<lambda>i g'. set_cell g' i (int u) 0) g = Inr t
      \<and> length t = length g \<and> square t
      \<and> (\<forall>i<length g. \<forall>j<length g. t ! i ! j = (if j = u then 0 else g ! i ! j))"
proof -
  let ?n = "length g"
  let ?P = "\<lambda>k t. length t = ?n \<and> square t
      \<and> (\<forall>i<?n. \<forall>j<?n. t ! i ! j = (if j = u \<and> i < k then 0 else g ! i ! j))"
  have "\<exists>t. for_each (py_range ?n) (\<lambda>i g'. set_cell g' i (int u) 0) g = Inr t \<and> ?P ?n t"
  proof (rule for_each_range_rule [where P = ?P])
    show "?P 0 g" using sq by simp
  next
    fix k t assume k: "k < ?n" and P: "?P k t"
    then have "set_cell t (int k) (int u) 0 = Inr (put t k u 0)"
      using u by (simp add: set_cell_in_range)
    moreover have "?P (Suc k) (put t k u 0)"
      using P k u by (auto simp: square_put nth_put less_Suc_eq)
    ultimately show "\<exists>t'. set_cell t (int k) (int u) 0 = Inr t' \<and> ?P (Suc k) t'"
      by blast
  qed
  then show ?thesis by auto
qed

lemma remove_node_in_range:
  assumes sq: "square g" and u: "u < length g"
  shows "\<exists>t. remove_node g (int u) = Inr t \<and> length t = length g \<and> square t
      \<and> (\<forall>i<length g. \<forall>j<length g. t ! i ! j = (if i = u \<or> j = u then 0 else g ! i ! j))"
proof -
  from clear_row [OF sq u] obtain g1 where
    g1: "for_each (py_range (length g)) (\<lambda>j g'. set_cell g' (int u) j 0) g = Inr g1"
      "length g1 = length g" "square g1"
      "\<forall>i<length g. \<forall>j<length g. g1 ! i ! j = (if i = u then 0 else g ! i ! j)"
    by blast
  from clear_column [of g1 u] g1 u obtain t where
    t: "for_each (py_range (length g)) (\<lambda>i g'. set_cell g' i (int u) 0) g1 = Inr t"
      "length t = length g" "square t"
      "\<forall>i<length g. \<forall>j<length g. t ! i ! j = (if j = u then 0 else g1 ! i ! j)"
    by auto
  have "remove_node g (int u) = Inr t"
    using u g1(1) t(1) by (simp add: remove_node_def)
  moreover have "\<forall>i<length g. \<forall>j<length g. t ! i ! j = (if i = u \<or> j = u then 0 else g ! i ! j)"
    using g1(4) t(4) by simp
  ultimately show ?thesis using t(2,3) by blast
qed

lemma get_followers_in_range:
  assumes sq: "square g" and u: "u < length g"
  shows "get_followers g (int u) = Inr (filter (\<lambda>i. g ! nat i ! u = 1) (py_range (length g)))"
proof -
  let ?n = "length g"
  let ?body = "\<lambda>i followers. case cell g i (int u) of Inl e \<Rightarrow> Inl e
      | Inr c \<Rightarrow> Inr (if c = 1 then followers @ [i] else followers)"
  let ?P = "\<lambda>k acc. acc = filter (\<lambda>i. g ! nat i ! u = 1) (py_range k)"
  have "\<exists>t. for_each (py_range ?n) ?body [] = Inr t \<and> ?P ?n t"
  proof (rule for_each_range_rule [where P = ?P])
    show "?P 0 []" by (simp add: py_range_def)
  next
    fix k t assume k: "k < ?n" and P: "?P k t"
    then show "\<exists>t'. ?body (int k) t = Inr t' \<and> ?P (Suc k) t'"
      using sq u by (simp add: cell_in_range py_range_Suc)
  qed
  then show ?thesis using u by (simp add: get_followers_def)
qed

lemma get_following_in_range:
  assumes sq: "square g" and u: "u < length g"
  shows "get_following g (int u) = Inr (filter (\<lambda>j. g ! u ! nat j = 1) (py_range (length g)))"
proof -
  let ?n = "length g"
  let ?body = "\<lambda>j following. case cell g (int u) j of Inl e \<Rightarrow> Inl e
      | Inr c \<Rightarrow> Inr (if c = 1 then following @ [j] else following)"
  let ?P = "\<lambda>k acc. acc = filter (\<lambda>j. g ! u ! nat j = 1) (py_range k)"
  have "\<exists>t. for_each (py_range ?n) ?body [] = Inr t \<and> ?P ?n t"
  proof (rule for_each_range_rule [where P = ?P])
    show "?P 0 []" by (simp add: py_range_def)
  next
    fix k t assume k: "k < ?n" and P: "?P k t"
    then show "\<exists>t'. ?body (int k) t = Inr t' \<and> ?P (Suc k) t'"
      using sq u by (simp add: cell_in_range py_range_Suc)
  qed
  then show ?thesis using u by (simp add: get_following_def)
qed

lemma bits_nth: "bits g \<Longrightarrow> i < length g \<Longrightarrow> j < length (g ! i) \<Longrightarrow> g ! i ! j = 0 \<or> g ! i ! j = 1"
  by (simp add: bits_def list_all_length)

lemma bitsI:
  "(\<And>i j. i < length g \<Longrightarrow> j < length (g ! i) \<Longrightarrow> g ! i ! j = 0 \<or> g ! i ! j = 1) \<Longrightarrow> bits g"
  by (simp add: bits_def list_all_length)

lemma no_self_loops_nth: "no_self_loops g \<Longrightarrow> i < length g \<Longrightarrow> g ! i ! i = 0"
  by (simp add: no_self_loops_def list_all_iff)

lemma no_self_loopsI: "(\<And>i. i < length g \<Longrightarrow> g ! i ! i = 0) \<Longrightarrow> no_self_loops g"
  by (simp add: no_self_loops_def list_all_iff)

lemma bits_put:
  assumes "bits g" "v = 0 \<or> v = 1"
  shows "bits (put g a b v)"
proof (rule bitsI)
  fix i j assume ij: "i < length (put g a b v)" "j < length (put g a b v ! i)"
  show "put g a b v ! i ! j = 0 \<or> put g a b v ! i ! j = 1"
  proof (cases "i = a \<and> j = b")
    case True
    then show ?thesis using ij assms(2) by (simp add: put_def)
  next
    case False
    then have "put g a b v ! i ! j = g ! i ! j"
      using ij by (cases "i = a") (auto simp: put_def)
    moreover have "j < length (g ! i)"
      using ij by (cases "i = a") (auto simp: put_def)
    ultimately show ?thesis using assms(1) ij(1) by (simp add: bits_nth)
  qed
qed

lemma no_self_loops_put:
  assumes "square g" "no_self_loops g" "a < length g" "b < length g" "a \<noteq> b \<or> v = 0"
  shows "no_self_loops (put g a b v)"
  using assms by (intro no_self_loopsI) (auto simp: nth_put no_self_loops_nth)


lemma store_ok_put:
  "store_ok g \<Longrightarrow> a < length g \<Longrightarrow> b < length g \<Longrightarrow> a \<noteq> b \<and> v = 1 \<or> v = 0 \<Longrightarrow> store_ok (put g a b v)"
  unfolding store_ok_def
  by (intro conjI square_put bits_put no_self_loops_put) auto

lemma store_ok_zeros: "store_ok (replicate n (replicate n 0))"
  unfolding store_ok_def
  by (intro conjI squareI bitsI no_self_loopsI) simp_all

lemma store_ok_initialize:
  assumes "list_all (\<lambda>(f, t). 0 \<le> f \<and> 0 \<le> t) connections"
  shows "\<exists>g. initialize_graph max_user_id connections = Inr g \<and> store_ok g"
proof -
  define size where "size = max_user_id + 1"
  let ?I = "\<lambda>g. store_ok g \<and> int (length g) = int (nat size)"
  let ?body = "\<lambda>(follower, followee) g.
           if follower < size \<and> followee < size then
             (if follower \<noteq> followee then set_cell g follower followee 1 else Inr g)
           else Inr g"
  have "\<exists>g. for_each connections ?body (replicate (nat size) (replicate (nat size) 0)) = Inr g \<and> ?I g"
  proof (rule for_each_succeeds [where I = ?I])
    show "?I (replicate (nat size) (replicate (nat size) 0))"
      by (simp add: store_ok_zeros)
  next
    fix x t assume x: "x \<in> set connections" and I: "?I t"
    obtain f b where fb: "x = (f, b)" by (cases x)
    then have nn: "0 \<le> f" "0 \<le> b" using assms x by (auto simp: list_all_iff)
    show "\<exists>t'. ?body x t = Inr t' \<and> ?I t'"
    proof (cases "f < size \<and> b < size \<and> f \<noteq> b")
      case True
      then have r: "f < int (length t)" "b < int (length t)" using I by auto
      then have "set_cell t f b 1 = Inr (put t (nat f) (nat b) 1)"
        using I nn by (simp add: set_cell_in_range store_ok_def)
      moreover have "store_ok (put t (nat f) (nat b) 1)"
        using I nn r True by (intro store_ok_put) auto
      ultimately show ?thesis using True fb I by simp
    next
      case False
      then show ?thesis using fb I by auto
    qed
  qed
  then show ?thesis by (auto simp: initialize_graph_def size_def Let_def)
qed

lemma create_node_cells:
  assumes sq: "square g" and ge: "int (length g) \<le> user_id"
  shows "length (create_node g user_id) = nat (user_id + 1)"
    and "i < nat (user_id + 1) \<Longrightarrow> length (create_node g user_id ! i) = nat (user_id + 1)"
    and "i < nat (user_id + 1) \<Longrightarrow> j < nat (user_id + 1) \<Longrightarrow>
         create_node g user_id ! i ! j = (if i < length g \<and> j < length g then g ! i ! j else 0)"
proof -
  define n where "n = length g"
  define m where "m = nat (user_id + 1)"
  have nm: "n < m" using ge by (simp add: n_def m_def)
  have rows: "\<And>row. row \<in> set g \<Longrightarrow> length row = n"
    using sq by (simp add: square_def list_all_iff n_def)
  define h where "h = map (\<lambda>row. row @ replicate (m - n) 0) g @ replicate (m - n) (replicate m 0)"
  have eq: "create_node g user_id = h"
    using ge rows nm
    by (auto simp: h_def create_node_def Let_def n_def m_def nat_diff_distrib' intro!: arg_cong2 [where f = "(@)"])
  have row: "h ! i = (if i < n then g ! i @ replicate (m - n) 0 else replicate m 0)" if "i < m" for i
    using that nm by (auto simp: h_def nth_append n_def)
  show "length (create_node g user_id) = nat (user_id + 1)"
    using nm by (simp add: eq h_def n_def flip: m_def)
  show "length (create_node g user_id ! i) = nat (user_id + 1)" if "i < nat (user_id + 1)"
    using that nm row [of i] sq by (auto simp: eq square_nth n_def simp flip: m_def)
  show "create_node g user_id ! i ! j = (if i < length g \<and> j < length g then g ! i ! j else 0)"
    if "i < nat (user_id + 1)" "j < nat (user_id + 1)"
    using that nm row [of i] sq by (auto simp: eq nth_append square_nth n_def simp flip: m_def)
qed

lemma create_node_square: "square g \<Longrightarrow> square (create_node g user_id)"
proof (cases "int (length g) \<le> user_id")
  case True
  assume "square g"
  from create_node_cells(1,2) [OF this True] show ?thesis by (intro squareI) simp
next
  case False
  assume "square g"
  then show ?thesis using False by (simp add: create_node_def)
qed

lemma create_node_bits:
  assumes "square g" "bits g"
  shows "bits (create_node g user_id)"
proof (cases "int (length g) \<le> user_id")
  case True
  note c = create_node_cells [OF assms(1) True]
  show ?thesis
  proof (rule bitsI)
    fix i j assume "i < length (create_node g user_id)" "j < length (create_node g user_id ! i)"
    then have ij: "i < nat (user_id + 1)" "j < nat (user_id + 1)" using c(1,2) by auto
    show "create_node g user_id ! i ! j = 0 \<or> create_node g user_id ! i ! j = 1"
      using c(3) [OF ij] assms bits_nth [of g i j] by (auto simp: square_nth)
  qed
next
  case False
  then show ?thesis using assms(2) by (simp add: create_node_def)
qed

lemma create_node_no_self_loops:
  assumes "square g" "no_self_loops g"
  shows "no_self_loops (create_node g user_id)"
proof (cases "int (length g) \<le> user_id")
  case True
  note c = create_node_cells [OF assms(1) True]
  show ?thesis
  proof (rule no_self_loopsI)
    fix i assume "i < length (create_node g user_id)"
    then have "i < nat (user_id + 1)" using c(1) by simp
    then show "create_node g user_id ! i ! i = 0"
      using c(3) [of i i] assms(2) by (auto simp: no_self_loops_nth)
  qed
next
  case False
  then show ?thesis using assms(2) by (simp add: create_node_def)
qed

lemma store_ok_create_node: "store_ok g \<Longrightarrow> store_ok (create_node g user_id)"
  by (simp add: store_ok_def create_node_square create_node_bits create_node_no_self_loops)

lemma store_ok_remove_node:
  assumes "store_ok g" "0 \<le> user_id"
  shows "\<exists>g'. remove_node g user_id = Inr g' \<and> store_ok g'"
proof (cases "user_id \<ge> int (length g)")
  case True
  then show ?thesis using assms by (simp add: remove_node_def)
next
  case False
  define u where "u = nat user_id"
  have u: "u < length g" "user_id = int u" using False assms(2) by (simp_all add: u_def)
  have sq: "square g" using assms(1) by (simp add: store_ok_def)
  from remove_node_in_range [OF sq u(1)] obtain t where
    t: "remove_node g (int u) = Inr t" "length t = length g" "square t"
      "\<forall>i<length g. \<forall>j<length g. t ! i ! j = (if i = u \<or> j = u then 0 else g ! i ! j)"
    by blast
  have "bits t"
  proof (rule bitsI)
    fix i j assume "i < length t" "j < length (t ! i)"
    then have ij: "i < length g" "j < length g" using t(2,3) by (simp_all add: square_nth)
    then have "g ! i ! j = 0 \<or> g ! i ! j = 1"
      using assms(1) by (simp add: store_ok_def bits_nth square_nth)
    then show "t ! i ! j = 0 \<or> t ! i ! j = 1" using t(4) ij by auto
  qed
  moreover have "no_self_loops t"
    using t(2,4) assms(1) by (intro no_self_loopsI) (auto simp: store_ok_def no_self_loops_nth)
  ultimately show ?thesis using t(1,3) u(2) by (simp add: store_ok_def)
qed

lemma store_ok_add_edge:
  assumes "store_ok g" "0 \<le> a" "0 \<le> b"
  shows "\<exists>g'. add_edge g a b = Inr g' \<and> store_ok g'"
proof (cases "a < int (length g) \<and> b < int (length g) \<and> a \<noteq> b")
  case True
  then have "add_edge g a b = Inr (put g (nat a) (nat b) 1)"
    using assms by (simp add: add_edge_def set_cell_in_range store_ok_def)
  moreover have "store_ok (put g (nat a) (nat b) 1)"
    using True assms by (intro store_ok_put) auto
  ultimately show ?thesis by simp
next
  case False
  then show ?thesis using assms(1) by (auto simp: add_edge_def)
qed

lemma store_ok_remove_edge:
  assumes "store_ok g" "0 \<le> a" "0 \<le> b"
  shows "\<exists>g'. remove_edge g a b = Inr g' \<and> store_ok g'"
proof (cases "a < int (length g) \<and> b < int (length g)")
  case True
  then have "remove_edge g a b = Inr (put g (nat a) (nat b) 0)"
    using assms by (simp add: remove_edge_def set_cell_in_range store_ok_def)
  moreover have "store_ok (put g (nat a) (nat b) 0)"
    using True assms by (intro store_ok_put) auto
  ultimately show ?thesis by simp
next
  case False
  then show ?thesis using assms(1) by (auto simp: remove_edge_def)
qed

lemma store_ok_exec:
  assumes "store_ok g" "list_all (\<lambda>i. 0 \<le> i) (command_ids c)"
  shows "\<exists>g'. exec c g = Inr g' \<and> store_ok g'"
proof (cases c)
  case (Initialize m conns)
  have "list_all (\<lambda>(f, t). 0 \<le> f \<and> 0 \<le> t) conns"
    using assms(2) Initialize by (auto simp: list_all_iff)
  then show ?thesis using Initialize store_ok_initialize by simp
next
  case (CreateNode u)
  then show ?thesis using assms(1) by (simp add: store_ok_create_node)
next
  case (RemoveNode u)
  then show ?thesis using assms store_ok_remove_node by simp
next
  case (AddEdge a b)
  then show ?thesis using assms store_ok_add_edge by simp
next
  case (RemoveEdge a b)
  then show ?thesis using assms store_ok_remove_edge by simp
qed

lemma store_ok_run:
  assumes "nonneg_ids cmds"
  shows "\<exists>g. run cmds [] = Inr g \<and> store_ok g"
  unfolding run_def
proof (rule for_each_succeeds [where I = store_ok])
  show "store_ok []" by (simp add: store_ok_def square_def bits_def no_self_loops_def)
next
  fix x t assume "x \<in> set cmds" "store_ok t"
  then show "\<exists>t'. exec x t = Inr t' \<and> store_ok t'"
    using assms store_ok_exec by (simp add: nonneg_ids_def list_all_iff)
qed

text \<open>Whatever the ids are, a state that a run of commands reaches is a square 0/1
  matrix: every write stores 0 or 1 into an existing cell.\<close>

lemma set_cell_Inr:
  assumes "set_cell g i j v = Inr g'"
  shows "\<exists>a b. g' = put g a b v"
  using assms
  by (auto simp: set_cell_def list_get_def list_set_def put_def split: option.splits sum.splits)

lemma shaped_set_cell:
  assumes "shaped g" "set_cell g i j v = Inr g'" "v = 0 \<or> v = 1"
  shows "shaped g'"
  using set_cell_Inr [OF assms(2)] assms(1,3) by (auto simp: shaped_def square_put bits_put)

lemma shaped_exec:
  assumes "shaped g" "exec c g = Inr g'"
  shows "shaped g'"
proof (cases c)
  case (Initialize m conns)
  let ?size = "m + 1"
  have "for_each conns
        (\<lambda>(follower, followee) g.
           if follower < ?size \<and> followee < ?size then
             (if follower \<noteq> followee then set_cell g follower followee 1 else Inr g)
           else Inr g)
        (replicate (nat ?size) (replicate (nat ?size) 0)) = Inr g'"
    using assms(2) Initialize by (simp add: initialize_graph_def Let_def)
  then show ?thesis
  proof (rule for_each_preserves [where I = shaped])
    show "shaped (replicate (nat ?size) (replicate (nat ?size) 0))"
      using store_ok_zeros [of "nat ?size"] by (simp add: shaped_def store_ok_def)
  next
    fix x u u' assume "shaped u"
      "(case x of (follower, followee) \<Rightarrow> \<lambda>g.
           if follower < ?size \<and> followee < ?size then
             (if follower \<noteq> followee then set_cell g follower followee 1 else Inr g)
           else Inr g) u = Inr u'"
    then show "shaped u'"
      by (cases x) (auto split: if_splits intro: shaped_set_cell)
  qed
next
  case (CreateNode u)
  then show ?thesis using assms by (auto simp: shaped_def create_node_square create_node_bits)
next
  case (RemoveNode u)
  show ?thesis
  proof (cases "u \<ge> int (length g)")
    case True
    then show ?thesis using assms RemoveNode by (simp add: remove_node_def)
  next
    case False
    then obtain g1 where
      g1: "for_each (py_range (length g)) (\<lambda>j g'. set_cell g' u j 0) g = Inr g1"
      and g': "for_each (py_range (length g)) (\<lambda>i g'. set_cell g' i u 0) g1 = Inr g'"
      using assms(2) RemoveNode by (auto simp: remove_node_def Let_def split: sum.splits)
    have "shaped g1"
      by (rule for_each_preserves [OF g1, where I = shaped]) (auto intro: assms(1) shaped_set_cell)
    then show ?thesis
      by (intro for_each_preserves [OF g', where I = shaped]) (auto intro: shaped_set_cell)
  qed
next
  case (AddEdge a b)
  then show ?thesis using assms
    by (auto simp: add_edge_def split: if_splits intro: shaped_set_cell)
next
  case (RemoveEdge a b)
  then show ?thesis using assms
    by (auto simp: remove_edge_def split: if_splits intro: shaped_set_cell)
qed

lemma reachable_shaped:
  assumes "run cmds [] = Inr g"
  shows "square g \<and> bits g"
proof -
  have "shaped g"
  proof (rule for_each_preserves [OF assms [unfolded run_def], where I = shaped])
    show "shaped []" by (simp add: shaped_def square_def bits_def)
  qed (rule shaped_exec)
  then show ?thesis by (simp add: shaped_def)
qed

section \<open>Out-of-range ids\<close>

text \<open>
  C3, as the specification states it: for every id that is negative or at least the matrix
  size, a query returns its neutral result, a mutation leaves the graph unchanged, and no
  call raises. The guards of the code are all of the form \<^verbatim>\<open>id >= len(self.graph)\<close>, so
  a negative id passes them and reaches the list indexing: it reads or writes the row and
  column counted from the end, or raises \<^verbatim>\<open>IndexError\<close> below \<open>-len\<close>.
\<close>

theorem negative_id_counterexample:
  "is_edge [[0, 1], [0, 0]] (- 2) 1 = Inr True
   \<and> add_edge [[0, 0], [0, 0]] (- 1) 0 = Inr [[0, 0], [1, 0]]
   \<and> get_following [[0, 1], [0, 0]] (- 2) = Inr [1]
   \<and> is_edge [[0]] (- 2) 0 = Inl IndexError"
  by (simp add: is_edge_def add_edge_def get_following_def py_range_def cell_def set_cell_def
      list_get_def list_set_def norm_index_def)

text \<open>
  C3, amended: for every id that is at least the matrix size (whatever the other id of the
  call is), \<open>is_edge\<close> returns false, \<open>get_followers\<close> and \<open>get_following\<close> return the empty
  list, and \<open>add_edge\<close>, \<open>remove_edge\<close> and \<open>remove_node\<close> return without raising and leave
  the graph unchanged.
\<close>

theorem too_large_id_is_neutral:
  assumes "int (length g) \<le> a"
  shows "is_edge g a b = Inr False \<and> is_edge g b a = Inr False
     \<and> get_followers g a = Inr [] \<and> get_following g a = Inr []
     \<and> add_edge g a b = Inr g \<and> add_edge g b a = Inr g
     \<and> remove_edge g a b = Inr g \<and> remove_edge g b a = Inr g
     \<and> remove_node g a = Inr g"
  using assms
  by (simp add: is_edge_def get_followers_def get_following_def add_edge_def remove_edge_def
      remove_node_def)

theorem too_large_id_is_neutral_witness:
  "int (length [[0, 1], [0, 0 :: int]]) \<le> 2
   \<and> is_edge [[0, 1], [0, 0]] 2 (- 1) = Inr False
   \<and> add_edge [[0, 1], [0, 0]] 0 2 = Inr [[0, 1], [0, 0]]
   \<and> remove_node [[0, 1], [0, 0]] 2 = Inr [[0, 1], [0, 0]]"
  using too_large_id_is_neutral [of "[[0, 1], [0, 0]]" 2 "- 1"]
    too_large_id_is_neutral [of "[[0, 1], [0, 0]]" 2 0]
  by simp

section \<open>No self-loops\<close>

text \<open>
  C4, as the specification states it: in every state reachable from the empty graph by the
  store's mutations, \<open>is_edge a a\<close> is false for every in-bounds \<open>a\<close>. The self-loop test of
  \<open>add_edge\<close> compares the ids, not the cells they index: \<open>add_edge (-1) 0\<close> on the one-node
  graph passes it and writes cell \<open>(0, 0)\<close>.
\<close>

theorem self_loop_counterexample:
  "run [CreateNode 0, AddEdge (- 1) 0] [] = Inr [[1]] \<and> is_edge [[1]] 0 0 = Inr True"
  by (simp add: run_def create_node_def is_edge_def add_edge_def cell_def set_cell_def
      list_get_def list_set_def norm_index_def)

text \<open>
  C4, amended: every sequence of \<open>initialize_graph\<close>, \<open>create_node\<close>, \<open>remove_node\<close>,
  \<open>add_edge\<close> and \<open>remove_edge\<close> calls whose ids are all non-negative runs from the empty
  graph without raising, and in the state it reaches the diagonal is zero: \<open>is_edge a a\<close> is
  false for every in-bounds \<open>a\<close>, and \<open>add_edge a a\<close> leaves that state unchanged.
\<close>

theorem no_self_loop_recorded:
  assumes "nonneg_ids cmds"
  shows "\<exists>g. run cmds [] = Inr g \<and> square g \<and> bits g \<and> no_self_loops g
      \<and> (\<forall>a. 0 \<le> a \<and> a < int (length g) \<longrightarrow>
            is_edge g a a = Inr False \<and> add_edge g a a = Inr g)"
proof -
  from store_ok_run [OF assms] obtain g where g: "run cmds [] = Inr g" "store_ok g"
    by blast
  have "is_edge g a a = Inr False \<and> add_edge g a a = Inr g" if "0 \<le> a" "a < int (length g)" for a
    using that g(2) by (simp add: is_edge_def add_edge_def cell_in_range store_ok_def no_self_loops_nth)
  then show ?thesis using g by (auto simp: store_ok_def)
qed

theorem no_self_loop_recorded_witness:
  "nonneg_ids [CreateNode 1, AddEdge 0 1, AddEdge 1 1]
   \<and> run [CreateNode 1, AddEdge 0 1, AddEdge 1 1] [] = Inr [[0, 1], [0, 0]]
   \<and> is_edge [[0, 1], [0, 0]] 1 1 = Inr False"
proof -
  have n: "nonneg_ids [CreateNode 1, AddEdge 0 1, AddEdge 1 1]"
    by (simp add: nonneg_ids_def)
  have r: "run [CreateNode 1, AddEdge 0 1, AddEdge 1 1] [] = Inr [[0, 1], [0, 0]]"
    by (simp add: run_def create_node_def add_edge_def set_cell_def list_get_def list_set_def
        norm_index_def eval_nat_numeral)
  from no_self_loop_recorded [OF n] r
  have "is_edge [[0, 1], [0, 0]] 1 1 = Inr False" by auto
  then show ?thesis using n r by simp
qed

section \<open>Removing a node\<close>

text \<open>
  C5: for an in-bounds id of a square matrix, \<open>remove_node\<close> returns a matrix of the same
  dimension in which row \<open>id\<close> and column \<open>id\<close> are zero, so that \<open>get_followers id\<close> and
  \<open>get_following id\<close> are empty, and in which every cell \<open>(a, b)\<close> with \<open>a \<noteq> id\<close> and
  \<open>b \<noteq> id\<close> is the cell of the matrix before. Every state of the store is square
  (\<open>reachable_shaped\<close>).
\<close>

theorem remove_node_clears_row_and_column:
  assumes sq: "square g" and lo: "0 \<le> user_id" and hi: "user_id < int (length g)"
  shows "\<exists>g'. remove_node g user_id = Inr g'
      \<and> length g' = length g \<and> square g'
      \<and> get_followers g' user_id = Inr [] \<and> get_following g' user_id = Inr []
      \<and> (\<forall>a. 0 \<le> a \<and> a < int (length g) \<longrightarrow>
            cell g' user_id a = Inr 0 \<and> cell g' a user_id = Inr 0)
      \<and> (\<forall>a b. 0 \<le> a \<and> a < int (length g) \<and> 0 \<le> b \<and> b < int (length g)
            \<and> a \<noteq> user_id \<and> b \<noteq> user_id
           \<longrightarrow> cell g' a b = cell g a b \<and> is_edge g' a b = is_edge g a b)"
proof -
  define u where "u = nat user_id"
  have u: "u < length g" "user_id = int u" using lo hi by (simp_all add: u_def)
  from remove_node_in_range [OF sq u(1)] obtain t where
    t: "remove_node g (int u) = Inr t" "length t = length g" "square t"
      "\<forall>i<length g. \<forall>j<length g. t ! i ! j = (if i = u \<or> j = u then 0 else g ! i ! j)"
    by blast
  have fl: "get_followers t (int u) = Inr []"
    using t u(1) by (simp add: get_followers_in_range py_range_def filter_empty_conv)
  have fg: "get_following t (int u) = Inr []"
    using t u(1) by (simp add: get_following_in_range py_range_def filter_empty_conv)
  have cleared: "cell t user_id a = Inr 0 \<and> cell t a user_id = Inr 0"
    if "0 \<le> a" "a < int (length g)" for a
  proof -
    have "nat a < length g" using that by simp
    then show ?thesis using that t(2,3,4) u by (simp add: cell_in_range)
  qed
  have frame: "cell t a b = cell g a b \<and> is_edge t a b = is_edge g a b"
    if "0 \<le> a" "a < int (length g)" "0 \<le> b" "b < int (length g)" "a \<noteq> user_id" "b \<noteq> user_id"
    for a b
  proof -
    have "nat a < length g" "nat b < length g" "nat a \<noteq> u" "nat b \<noteq> u"
      using that u by auto
    then have "t ! nat a ! nat b = g ! nat a ! nat b" using t(4) by simp
    then have "cell t a b = cell g a b"
      using that t(2,3) sq by (simp add: cell_in_range)
    then show ?thesis using t(2) by (simp add: is_edge_def)
  qed
  show ?thesis using t(1,2,3) fl fg frame cleared u(2) by auto
qed

theorem remove_node_clears_row_and_column_witness:
  "square [[0, 1, 1], [1, 0, 1], [1, 1, 0]]
   \<and> remove_node [[0, 1, 1], [1, 0, 1], [1, 1, 0]] 1 = Inr [[0, 0, 1], [0, 0, 0], [1, 0, 0]]
   \<and> get_followers [[0, 0, 1], [0, 0, 0], [1, 0, 0]] 1 = Inr []
   \<and> get_following [[0, 0, 1], [0, 0, 0], [1, 0, 0]] 1 = Inr []"
proof -
  have sq: "square [[0, 1, 1], [1, 0, 1], [1, 1, 0]]" by (simp add: square_def)
  have r: "remove_node [[0, 1, 1], [1, 0, 1], [1, 1, 0]] 1 = Inr [[0, 0, 1], [0, 0, 0], [1, 0, 0]]"
    by (simp add: remove_node_def py_range_def upt_rec set_cell_def list_get_def list_set_def norm_index_def)
  from remove_node_clears_row_and_column [OF sq, of 1] r
  have "get_followers [[0, 0, 1], [0, 0, 0], [1, 0, 0]] 1 = Inr []
     \<and> get_following [[0, 0, 1], [0, 0, 0], [1, 0, 0]] 1 = Inr []"
    by auto
  then show ?thesis using sq r by simp
qed

section \<open>Degree of separation and shortest path\<close>

text \<open>On a square matrix and non-negative ids \<open>get_shortest_path\<close> returns, and what it
  returns is empty or a path from the start to the target along outbound edges.\<close>

lemma trail_nonneg: "trail g visited parent s v p \<Longrightarrow> 0 \<le> v"
  by (induction rule: trail.induct) simp_all

lemma trail_visit:
  assumes "trail g visited parent s v p" "k < length visited" "\<not> visited ! k"
  shows "trail g (visited[k := True]) (parent[k := c]) s v p"
  using assms
proof (induction rule: trail.induct)
  case root
  then have "k \<noteq> nat s" by auto
  then show ?case using root by (intro trail.root) simp_all
next
  case (step u p v)
  then have "k \<noteq> nat v" by auto
  then show ?case using step by (intro trail.step) simp_all
qed

lemma trail_shape:
  assumes "trail g visited parent s v p"
  shows "p \<noteq> [] \<and> hd p = s \<and> last p = v
      \<and> (\<forall>i. Suc i < length p \<longrightarrow> is_edge g (p ! i) (p ! Suc i) = Inr True)"
  using assms
proof (induction rule: trail.induct)
  case root
  then show ?case by simp
next
  case (step u p v)
  have "is_edge g ((p @ [v]) ! i) ((p @ [v]) ! Suc i) = Inr True" if "Suc i < length (p @ [v])" for i
  proof (cases "Suc i < length p")
    case True
    then show ?thesis using step.IH by (simp add: nth_append)
  next
    case False
    then have i: "i = length p - 1" "i < length p" "Suc i = length p" using that step.IH by auto
    have "p ! i = u" using i(1) step.IH by (metis last_conv_nth)
    then have "(p @ [v]) ! i = u" using i(2) by (simp add: nth_append)
    moreover have "(p @ [v]) ! Suc i = v" using i(3) by simp
    ultimately have "is_edge g ((p @ [v]) ! i) ((p @ [v]) ! Suc i) = is_edge g u v" by simp
    then show ?thesis using step.hyps by simp
  qed
  then show ?case using step.IH by auto
qed

lemma backtrack_trail:
  assumes "trail g visited parent s v p"
  shows "backtrack parent v acc = Some (Inr (acc @ rev p))"
  using assms
proof (induction arbitrary: acc rule: trail.induct)
  case root
  then have "list_get parent s = Inr (- 1)"
    using list_get_in_range [of "nat s" parent] by simp
  moreover have "backtrack parent (- 1) (acc @ [s]) = Some (Inr (acc @ [s]))"
    by (subst backtrack.simps) simp
  ultimately show ?case using root by (subst backtrack.simps) simp
next
  case (step u p v)
  then have "list_get parent v = Inr u"
    using list_get_in_range [of "nat v" parent] by simp
  then show ?case using step by (subst backtrack.simps) simp
qed

lemma is_edge_in_range:
  assumes "square g" "i < length g" "j < length g"
  shows "is_edge g (int i) (int j) = Inr (g ! i ! j = 1)"
  using assms by (simp add: is_edge_def cell_in_range)

lemma path_visit_inv:
  assumes sq: "square g" and inv: "path_inv g s q vs ps"
    and cur: "cur < length g" "vs ! cur" and k: "k < length g"
  shows "\<exists>q' vs' ps'. path_visit g (int cur) (int k) (q, vs, ps) = Inr (q', vs', ps')
      \<and> path_inv g s q' vs' ps' \<and> vs' ! cur"
proof -
  have len: "length vs = length g" "length ps = length g" using inv by (simp_all add: path_inv_def)
  have c: "cell g (int cur) (int k) = Inr (g ! cur ! k)" using sq cur k by (simp add: cell_in_range)
  have seen: "list_get vs (int k) = Inr (vs ! k)" using k len by (simp add: list_get_in_range)
  show ?thesis
  proof (cases "g ! cur ! k = 1 \<and> \<not> vs ! k")
    case False
    then have "path_visit g (int cur) (int k) (q, vs, ps) = Inr (q, vs, ps)"
      using c seen by (auto simp: path_visit_def and_then_def)
    then show ?thesis using inv cur by blast
  next
    case True
    let ?vs = "vs[k := True]" and ?ps = "ps[k := int cur]"
    have run: "path_visit g (int cur) (int k) (q, vs, ps) = Inr (q @ [int k], ?vs, ?ps)"
      using True c seen k len by (simp add: path_visit_def and_then_def list_set_in_range)
    have old: "\<exists>p. trail g ?vs ?ps s (int v) p" if "v < length g" "vs ! v" for v
    proof -
      from inv that obtain p where "trail g vs ps s (int v) p" by (auto simp: path_inv_def)
      then have "trail g ?vs ?ps s (int v) p" using k len True by (intro trail_visit) simp_all
      then show ?thesis by blast
    qed
    have new: "\<exists>p. trail g ?vs ?ps s (int k) p"
    proof -
      from old [OF cur] obtain p where p: "trail g ?vs ?ps s (int cur) p" by blast
      have "is_edge g (int cur) (int k) = Inr True"
        using True sq cur k by (simp add: is_edge_in_range)
      then have "trail g ?vs ?ps s (int k) (p @ [int k])"
        using k len by (intro trail.step [OF p]) simp_all
      then show ?thesis by blast
    qed
    have "path_inv g s (q @ [int k]) ?vs ?ps"
      unfolding path_inv_def
    proof (intro conjI ballI allI impI)
      fix x assume "x \<in> set (q @ [int k])"
      then have "x = int k \<or> x \<in> set q" by auto
      then show "0 \<le> x" "nat x < length g" "?vs ! nat x"
        using inv k len by (auto simp: path_inv_def nth_list_update)
    next
      fix v assume "v < length g" "?vs ! v"
      then show "\<exists>p. trail g ?vs ?ps s (int v) p"
        using old new len by (cases "v = k") (auto simp: nth_list_update)
    qed (simp_all add: len)
    moreover have "?vs ! cur" using cur k len by (simp add: nth_list_update)
    ultimately show ?thesis using run by blast
  qed
qed

lemma path_pass_inv:
  assumes sq: "square g" and inv: "path_inv g s q vs ps" and cur: "cur < length g" "vs ! cur"
  shows "\<exists>q' vs' ps'. for_each (py_range (length g)) (path_visit g (int cur)) (q, vs, ps)
        = Inr (q', vs', ps') \<and> path_inv g s q' vs' ps'"
proof -
  let ?I = "\<lambda>k st. case st of (q', vs', ps') \<Rightarrow> path_inv g s q' vs' ps' \<and> vs' ! cur"
  have "\<exists>t. for_each (py_range (length g)) (path_visit g (int cur)) (q, vs, ps) = Inr t \<and> ?I (length g) t"
  proof (rule for_each_range_rule [where P = ?I])
    show "?I 0 (q, vs, ps)" using inv cur by simp
  next
    fix k t assume k: "k < length g" and I: "?I k t"
    obtain q' vs' ps' where t: "t = (q', vs', ps')" by (cases t)
    from path_visit_inv [OF sq _ cur(1) _ k, of s q' vs' ps'] I t
    show "\<exists>t'. path_visit g (int cur) (int k) t = Inr t' \<and> ?I (Suc k) t'"
      by auto
  qed
  then show ?thesis by auto
qed

lemma path_loop_inv:
  "square g \<Longrightarrow> path_inv g s q vs ps \<Longrightarrow>
     \<exists>found ps'. path_loop g t q vs ps = Inr (found, ps')
        \<and> (found \<longrightarrow> (\<exists>vs' p. trail g vs' ps' s t p))"
proof (induction g t q vs ps rule: path_loop.induct)
  case (1 g target visited parent)
  then show ?case by auto
next
  case (2 g target current queue visited parent)
  note sq = "2.prems"(1) and inv = "2.prems"(2)
  have cur: "0 \<le> current" "nat current < length g" "visited ! nat current"
    using inv by (simp_all add: path_inv_def)
  show ?case
  proof (cases "current = target")
    case True
    from inv cur obtain p where "trail g visited parent s (int (nat current)) p"
      by (auto simp: path_inv_def)
    then have "trail g visited parent s target p" using cur(1) True by simp
    then show ?thesis using True by auto
  next
    case False
    have rest: "path_inv g s queue visited parent" using inv by (simp add: path_inv_def)
    from path_pass_inv [OF sq rest cur(2,3)] cur(1) obtain q' vs' ps' where
      pass: "for_each (py_range (length g)) (path_visit g current) (queue, visited, parent)
          = Inr (q', vs', ps')"
      and inv': "path_inv g s q' vs' ps'" by auto
    from "2.IH" [OF False pass refl refl sq inv'] show ?thesis using False pass by simp
  qed
qed

lemma shortest_path_follows_edges:
  assumes sq: "square g" and a: "0 \<le> a" and b: "0 \<le> b"
  shows "\<exists>p. get_shortest_path g a b = Some (Inr p)
      \<and> (p \<noteq> [] \<longrightarrow> hd p = a \<and> last p = b
            \<and> (\<forall>i. Suc i < length p \<longrightarrow> is_edge g (p ! i) (p ! Suc i) = Inr True))"
proof (cases "a \<ge> int (length g) \<or> b \<ge> int (length g) \<or> a = b")
  case True
  then show ?thesis by (auto simp: get_shortest_path_def Let_def)
next
  case False
  let ?n = "length g"
  let ?vs = "(replicate ?n False)[nat a := True]"
  let ?ps = "replicate ?n (- 1) :: int list"
  have an: "nat a < ?n" using False a by auto
  have v0: "list_set (replicate ?n False) a True = Inr ?vs"
    using list_set_in_range [of "nat a" "replicate ?n False" True] an a by simp
  have root: "trail g ?vs ?ps a a [a]"
    using a an by (intro trail.root) simp_all
  have "path_inv g a [a] ?vs ?ps"
    unfolding path_inv_def
  proof (intro conjI ballI allI impI)
    fix v assume "v < ?n" "?vs ! v"
    then have "v = nat a" using an by (auto simp: nth_list_update split: if_splits)
    then show "\<exists>p. trail g ?vs ?ps a (int v) p" using root a by auto
  qed (use a an in simp_all)
  from path_loop_inv [OF sq this, of b] obtain found ps' where
    loop: "path_loop g b [a] ?vs ?ps = Inr (found, ps')"
    and tr: "found \<longrightarrow> (\<exists>vs' p. trail g vs' ps' a b p)" by blast
  show ?thesis
  proof (cases found)
    case False
    then show ?thesis using \<open>\<not> (a \<ge> int ?n \<or> b \<ge> int ?n \<or> a = b)\<close> v0 loop
      by (simp add: get_shortest_path_def Let_def)
  next
    case True
    then obtain vs' p where p: "trail g vs' ps' a b p" using tr by blast
    have "backtrack ps' b [] = Some (Inr (rev p))" using backtrack_trail [OF p, of "[]"] by simp
    then have "get_shortest_path g a b = Some (Inr p)"
      using \<open>\<not> (a \<ge> int ?n \<or> b \<ge> int ?n \<or> a = b)\<close> v0 loop True
      by (simp add: get_shortest_path_def Let_def)
    then show ?thesis using trail_shape [OF p] by simp
  qed
qed

lemma degree_base_cases:
  "int (length g) \<le> a \<or> int (length g) \<le> b \<Longrightarrow> get_degree_of_separation g a b = Inr (- 1)"
  "a < int (length g) \<Longrightarrow> get_degree_of_separation g a a = Inr 0"
  by (auto simp: get_degree_of_separation_def Let_def)

text \<open>
  C1: whenever \<open>get_shortest_path a b\<close> returns a path of \<open>k + 1\<close> nodes,
  \<open>get_degree_of_separation a b\<close> returns \<open>k\<close>, and consecutive nodes of the path are joined
  by an outbound edge. On the chain \<open>0 \<rightarrow> 1 \<rightarrow> 2 \<rightarrow> 3\<close> the path from 0 to 3 has four nodes and
  the degree is \<open>-1\<close>: the inner loop of \<open>get_degree_of_separation\<close> tests
  \<^verbatim>\<open>self.graph[neighbor][current]\<close>, the edge into \<open>current\<close>, where
  \<open>get_shortest_path\<close> tests \<^verbatim>\<open>self.graph[current][neighbor]\<close>.
\<close>

theorem degree_disagrees_with_shortest_path:
  "get_shortest_path chain4 0 3 = Some (Inr [0, 1, 2, 3])
   \<and> get_degree_of_separation chain4 0 3 = Inr (- 1)"
  by code_simp

text \<open>
  C2: \<open>get_degree_of_separation\<close> is a breadth-first search over outbound edges; on the
  chain \<open>0 \<rightarrow> 1 \<rightarrow> 2 \<rightarrow> 3\<close> it returns 3 for \<open>(0, 3)\<close> and \<open>-1\<close> for \<open>(3, 0)\<close>. The code returns
  the two values the other way round, since its search follows the edges backwards.
\<close>

theorem degree_follows_inbound_edges:
  "get_degree_of_separation chain4 0 3 = Inr (- 1)
   \<and> get_degree_of_separation chain4 3 0 = Inr 3"
  by code_simp

section \<open>Recommendations for an unknown user\<close>

text \<open>
  C10: \<open>get_recommendations\<close> returns the empty list, without raising, whenever the user id
  is at least the matrix size or the attribute lookup of the user itself finds nothing. The
  graph is an argument that the function only reads.
\<close>

theorem recommend_unknown_user_is_empty:
  assumes "user_id \<ge> int (length g) \<or> return_user_by_id user_id = None"
  shows "get_recommendations g return_user_by_id user_id threshold = Inr []"
  using assms by (auto simp: get_recommendations_def Let_def)

theorem recommend_unknown_user_is_empty_witness:
  "get_recommendations [[0, 1], [0, 0]] (\<lambda>i. Some []) 2 0 = Inr []
   \<and> get_recommendations [[0, 1], [0, 0]] (\<lambda>i. if i = 0 then None else Some [''chess'']) 0 0 = Inr []"
  using recommend_unknown_user_is_empty [of "[[0, 1], [0, 0]]" 2 "\<lambda>i. Some []" 0]
    recommend_unknown_user_is_empty [of "[[0, 1], [0, 0]]" 0 "\<lambda>i. if i = 0 then None else Some [''chess'']" 0]
  by simp

section \<open>Influence\<close>

lemma py_max_nonempty: "xs \<noteq> [] \<Longrightarrow> py_max xs = Inr (Max (set xs))"
  by (cases xs) (simp_all add: py_max_def flip: Max.set_eq_fold)

lemma count_followers_in_range:
  assumes sq: "square g" and i: "i < length g"
  shows "count_followers g (int i) = Inr (int (in_degree g i))"
proof -
  let ?body = "\<lambda>j count. and_then (cell g j (int i)) (\<lambda>c. Inr (if c = 1 then count + 1 else count))"
  let ?P = "\<lambda>k (count :: int). count = int (length (filter (\<lambda>j. g ! j ! i = 1) [0..<k]))"
  have "\<exists>t. for_each (py_range (length g)) ?body 0 = Inr t \<and> ?P (length g) t"
  proof (rule for_each_range_rule [where P = ?P])
    show "?P 0 0" by simp
  next
    fix k t assume "k < length g" "?P k t"
    then show "\<exists>t'. ?body (int k) t = Inr t' \<and> ?P (Suc k) t'"
      using sq i by (simp add: cell_in_range and_then_def)
  qed
  then show ?thesis by (simp add: count_followers_def in_degree_def)
qed

lemma follower_counts_loop:
  assumes sq: "square g"
  shows "for_each (py_range (length g))
           (\<lambda>i follower_counts.
              and_then (count_followers g i) (\<lambda>count. Inr (dict_set follower_counts i count)))
           []
         = Inr (map (\<lambda>i. (int i, int (in_degree g i))) [0..<length g])"
proof -
  let ?body = "\<lambda>i follower_counts.
      and_then (count_followers g i) (\<lambda>count. Inr (dict_set follower_counts i count))"
  let ?P = "\<lambda>k fc. fc = map (\<lambda>i. (int i, int (in_degree g i))) [0..<k]"
  have "\<exists>t. for_each (py_range (length g)) ?body [] = Inr t \<and> ?P (length g) t"
  proof (rule for_each_range_rule [where P = ?P])
    show "?P 0 []" by simp
  next
    fix k t assume k: "k < length g" and P: "?P k t"
    have "int k \<notin> fst ` set t" using P by auto
    then show "\<exists>t'. ?body (int k) t = Inr t' \<and> ?P (Suc k) t'"
      using sq k P by (simp add: count_followers_in_range and_then_def dict_set_def)
  qed
  then show ?thesis by simp
qed

lemma scores_loop:
  assumes "\<And>i. i < n \<Longrightarrow> look (int i) = Some (c i)"
  shows "for_each (py_range n)
           (\<lambda>i scores. case look i of None \<Rightarrow> Inl KeyError
                        | Some x \<Rightarrow> Inr (dict_set scores i (v x)))
           []
         = Inr (map (\<lambda>i. (int i, v (c i))) [0..<n])"
proof -
  let ?body = "\<lambda>i scores. case look i of None \<Rightarrow> Inl KeyError
                        | Some x \<Rightarrow> Inr (dict_set scores i (v x))"
  let ?P = "\<lambda>k sc. sc = map (\<lambda>i. (int i, v (c i))) [0..<k]"
  have "\<exists>t. for_each (py_range n) ?body [] = Inr t \<and> ?P n t"
  proof (rule for_each_range_rule [where P = ?P])
    show "?P 0 []" by simp
  next
    fix k t assume k: "k < n" and P: "?P k t"
    have "int k \<notin> fst ` set t" using P by auto
    then show "\<exists>t'. ?body (int k) t = Inr t' \<and> ?P (Suc k) t'"
      using assms [OF k] P by (simp add: dict_set_def)
  qed
  then show ?thesis by simp
qed

lemma map_of_counts:
  assumes "i < n"
  shows "map_of (map (\<lambda>i. (int i, f i)) [0..<n]) (int i) = Some (f i)"
proof -
  have "distinct (map fst (map (\<lambda>i. (int i, f i)) [0..<n]))"
    by (simp add: comp_def distinct_map inj_on_def)
  moreover have "(int i, f i) \<in> set (map (\<lambda>i. (int i, f i)) [0..<n])"
    using assms by simp
  ultimately show ?thesis by (simp only: map_of_eq_Some_iff)
qed

lemma calculate_influence_square:
  assumes sq: "square g" and ne: "g \<noteq> []"
  shows "calculate_influence g =
     Inr (map (\<lambda>i. (int i, if max_in_degree g = 0 then 0
                            else real (in_degree g i) / real (max_in_degree g)))
            [0..<length g])"
proof -
  let ?n = "length g"
  let ?fc = "map (\<lambda>i. (int i, int (in_degree g i))) [0..<?n]"
  have n: "?n \<noteq> 0" using ne by simp
  define xs where "xs = map (in_degree g) [0..<?n]"
  have xs: "xs \<noteq> []" using n by (simp add: xs_def)
  have vals: "map snd ?fc = map int xs"
    by (simp add: comp_def xs_def)
  have "int (Max (set xs)) = Max (int ` set xs)"
    using xs by (intro mono_Max_commute) (simp_all add: mono_def)
  moreover have "max_in_degree g = Max (set xs)"
    by (simp add: max_in_degree_def xs_def)
  ultimately have "Max (set (map int xs)) = int (max_in_degree g)"
    by simp
  then have mx: "py_max (map snd ?fc) = Inr (int (max_in_degree g))"
    using xs by (simp only: vals) (simp add: py_max_nonempty)
  show ?thesis
  proof (cases "max_in_degree g = 0")
    case True
    then show ?thesis
      using n mx follower_counts_loop [OF sq]
      by (simp add: calculate_influence_def Let_def and_then_def py_range_def comp_def)
  next
    case False
    have look: "\<And>i. i < ?n \<Longrightarrow> map_of ?fc (int i) = Some (int (in_degree g i))"
      by (rule map_of_counts)
    have "for_each (py_range ?n)
           (\<lambda>i scores. case map_of ?fc i of None \<Rightarrow> Inl KeyError
              | Some x \<Rightarrow> Inr (dict_set scores i (real_of_int x / real_of_int (int (max_in_degree g)))))
           []
         = Inr (map (\<lambda>i. (int i, real_of_int (int (in_degree g i)) / real_of_int (int (max_in_degree g)))) [0..<?n])"
      by (rule scores_loop [where look = "map_of ?fc" and c = "\<lambda>i. int (in_degree g i)"
            and v = "\<lambda>x. real_of_int x / real_of_int (int (max_in_degree g))", OF look])
    then show ?thesis
      using n mx False follower_counts_loop [OF sq]
      by (simp add: calculate_influence_def Let_def and_then_def)
  qed
qed

lemma in_degree_le_max: "i < length g \<Longrightarrow> in_degree g i \<le> max_in_degree g"
  by (simp add: max_in_degree_def)

lemma follower_count_is_in_degree:
  assumes "square g" "i < length g"
  shows "get_followers g (int i) = Inr (filter (\<lambda>j. g ! nat j ! i = 1) (py_range (length g)))
      \<and> length (filter (\<lambda>j. g ! nat j ! i = 1) (py_range (length g))) = in_degree g i"
proof -
  have "filter (\<lambda>j. g ! nat j ! i = 1) (py_range (length g))
      = map int (filter (\<lambda>j. g ! j ! i = 1) [0..<length g])"
    by (simp add: py_range_def filter_map comp_def)
  then show ?thesis using assms by (simp add: get_followers_in_range in_degree_def)
qed

text \<open>
  C7, as the specification states it, ends: on a single-node graph \<open>calculate_influence\<close>
  returns \<open>{0: 0.0}\<close>. The store reaches the one-node graph with a self-loop (a negative
  id passes the guards of \<open>add_edge\<close>), and there the node is its own follower: the maximum
  in-degree is 1 and the result is \<open>{0: 1.0}\<close>.
\<close>

theorem influence_self_loop_counterexample:
  "run [CreateNode 0, AddEdge (- 1) 0] [] = Inr [[1]]
   \<and> calculate_influence [[1]] = Inr [(0, 1)]"
proof -
  have "run [CreateNode 0, AddEdge (- 1) 0] [] = Inr [[1]]"
    by (simp add: run_def create_node_def add_edge_def set_cell_def list_get_def list_set_def
        norm_index_def)
  moreover have "calculate_influence [[1]] = Inr [(0, 1)]"
    by (simp add: calculate_influence_def count_followers_def py_range_def cell_def list_get_def
        norm_index_def and_then_def dict_set_def py_max_def Let_def)
  ultimately show ?thesis by simp
qed

text \<open>
  C7, amended: on a non-empty square matrix \<open>calculate_influence\<close> returns a mapping over
  all node ids (the keys are \<open>0, \<dots>, N - 1\<close>) whose scores lie in \<open>[0, 1]\<close>; a node whose
  in-degree is the maximum has score 1 when the maximum is positive; when the maximum is 0
  every score is 0; and on the one-node graph without a self-loop (every one-node state
  reached with non-negative ids) the result is \<open>{0: 0.0}\<close>. The scores are quotients of
  two integers, stated here over the reals; the bounds and the values 0 and 1 are the same
  under correctly rounded division.
\<close>

theorem influence_scores:
  assumes sq: "square g" and ne: "g \<noteq> []"
  shows "\<exists>res. calculate_influence g = Inr res \<and> map fst res = py_range (length g)
      \<and> (\<forall>i<length g. 0 \<le> snd (res ! i) \<and> snd (res ! i) \<le> 1
            \<and> (0 < max_in_degree g \<and> in_degree g i = max_in_degree g \<longrightarrow> snd (res ! i) = 1)
            \<and> (max_in_degree g = 0 \<longrightarrow> snd (res ! i) = 0))
      \<and> (length g = 1 \<and> no_self_loops g \<longrightarrow> res = [(0, 0)])"
proof -
  define res where "res = map (\<lambda>i. (int i, if max_in_degree g = 0 then 0
                            else real (in_degree g i) / real (max_in_degree g)))
            [0..<length g]"
  have r: "calculate_influence g = Inr res"
    unfolding res_def by (rule calculate_influence_square [OF sq ne])
  have keys: "map fst res = py_range (length g)"
    by (simp add: res_def py_range_def comp_def)
  have vals: "0 \<le> snd (res ! i) \<and> snd (res ! i) \<le> 1
            \<and> (0 < max_in_degree g \<and> in_degree g i = max_in_degree g \<longrightarrow> snd (res ! i) = 1)
            \<and> (max_in_degree g = 0 \<longrightarrow> snd (res ! i) = 0)" if "i < length g" for i
    using that in_degree_le_max [OF that] by (simp add: res_def divide_le_eq_1)
  have single: "res = [(0, 0)]" if "length g = 1" "no_self_loops g"
  proof -
    have "g ! 0 ! 0 = 0" using that by (simp add: no_self_loops_def)
    then have "in_degree g 0 = 0" using that(1) by (simp add: in_degree_def)
    then have "max_in_degree g = 0" using that(1) by (simp add: max_in_degree_def)
    then show ?thesis using that(1) by (simp add: res_def)
  qed
  show ?thesis using r keys vals single by blast
qed

theorem influence_scores_witness:
  "square [[0, 1], [0, 0]] \<and> max_in_degree [[0, 1], [0, 0]] = 1
   \<and> (\<exists>res. calculate_influence [[0, 1], [0, 0]] = Inr res \<and> snd (res ! 1) = 1)
   \<and> square [[0]] \<and> calculate_influence [[0]] = Inr [(0, 0)]"
proof -
  have sq: "square [[0, 1], [0, 0]]" "square [[0]]" by (simp_all add: square_def)
  have d: "in_degree [[0, 1], [0, 0]] 1 = 1" "max_in_degree [[0, 1], [0, 0]] = 1"
    by (simp_all add: in_degree_def max_in_degree_def upt_rec)
  from influence_scores [OF sq(1)] d
  have "\<exists>res. calculate_influence [[0, 1], [0, 0]] = Inr res \<and> snd (res ! 1) = 1"
    by fastforce
  moreover from influence_scores [OF sq(2)] have "calculate_influence [[0]] = Inr [(0, 0)]"
    by (auto simp: no_self_loops_def)
  ultimately show ?thesis using sq d by simp
qed

section \<open>PageRank\<close>

lemma add_at_in_range: "j < length xs \<Longrightarrow> add_at xs (int j) v = Inr (xs[j := xs ! j + v])"
  by (simp add: add_at_def and_then_def list_get_in_range list_set_in_range)

lemma sum_list_bump:
  fixes xs :: "real list"
  shows "j < length xs \<Longrightarrow> sum_list (xs[j := xs ! j + v]) = sum_list xs + v"
proof (induction xs arbitrary: j)
  case Nil
  then show ?case by simp
next
  case (Cons x xs)
  then show ?case by (cases j) simp_all
qed

lemma mass_bump:
  assumes "mass n tot xs" "j < n" "0 \<le> v"
  shows "mass n (tot + v) (xs[j := xs ! j + v])"
proof -
  have "list_all (\<lambda>x. 0 \<le> x) (xs[j := xs ! j + v])"
    using assms by (auto simp: mass_def list_all_length nth_list_update)
  then show ?thesis using assms by (simp add: mass_def sum_list_bump)
qed

lemma fill_base:
  "for_each (py_range n) (\<lambda>i ns. list_set ns i b) (replicate n 0) = Inr (replicate n b)"
proof -
  let ?P = "\<lambda>k t. length t = n \<and> (\<forall>i<k. t ! i = b)"
  have "\<exists>t. for_each (py_range n) (\<lambda>i ns. list_set ns i b) (replicate n 0) = Inr t \<and> ?P n t"
  proof (rule for_each_range_rule [where P = ?P])
    show "?P 0 (replicate n 0)" by simp
  next
    fix k t assume "k < n" "?P k t"
    then show "\<exists>t'. list_set t (int k) b = Inr t' \<and> ?P (Suc k) t'"
      by (auto simp: list_set_in_range nth_list_update less_Suc_eq)
  qed
  then obtain t where t: "for_each (py_range n) (\<lambda>i ns. list_set ns i b) (replicate n 0) = Inr t"
    "length t = n" "\<forall>i<n. t ! i = b" by blast
  have "t = replicate n b" using t(2,3) by (simp add: list_eq_iff_nth_eq)
  then show ?thesis using t(1) by simp
qed

lemma sink_loop:
  assumes "mass n tot ns" "0 \<le> c"
  shows "\<exists>t. for_each (py_range n) (\<lambda>j ns. add_at ns j c) ns = Inr t
      \<and> mass n (tot + real n * c) t"
proof -
  let ?P = "\<lambda>k t. mass n (tot + real k * c) t"
  have "\<exists>t. for_each (py_range n) (\<lambda>j ns. add_at ns j c) ns = Inr t \<and> ?P n t"
  proof (rule for_each_range_rule [where P = ?P])
    show "?P 0 ns" using assms by simp
  next
    fix k t assume k: "k < n" and P: "?P k t"
    have "add_at t (int k) c = Inr (t[k := t ! k + c])"
      using k P by (simp add: add_at_in_range mass_def)
    moreover have "mass n (tot + real k * c + c) (t[k := t ! k + c])"
      using P k assms(2) by (rule mass_bump)
    ultimately show "\<exists>t'. add_at t (int k) c = Inr t' \<and> ?P (Suc k) t'"
      by (simp add: algebra_simps)
  qed
  then show ?thesis by simp
qed

lemma share_loop:
  assumes sq: "square g" and i: "i < length g" and m: "mass (length g) tot ns" and c: "0 \<le> c"
  shows "\<exists>t. for_each (py_range (length g))
             (\<lambda>j ns. and_then (cell g (int i) j) (\<lambda>b. if b = 1 then add_at ns j c else Inr ns)) ns
           = Inr t
      \<and> mass (length g) (tot + real (length (filter (\<lambda>j. g ! i ! j = 1) [0..<length g])) * c) t"
proof -
  let ?n = "length g"
  let ?body = "\<lambda>j ns. and_then (cell g (int i) j) (\<lambda>b. if b = 1 then add_at ns j c else Inr ns)"
  let ?P = "\<lambda>k t. mass ?n (tot + real (length (filter (\<lambda>j. g ! i ! j = 1) [0..<k])) * c) t"
  have "\<exists>t. for_each (py_range ?n) ?body ns = Inr t \<and> ?P ?n t"
  proof (rule for_each_range_rule [where P = ?P])
    show "?P 0 ns" using m by simp
  next
    fix k t assume k: "k < ?n" and P: "?P k t"
    have cl: "cell g (int i) (int k) = Inr (g ! i ! k)"
      using sq i k by (simp add: cell_in_range)
    show "\<exists>t'. ?body (int k) t = Inr t' \<and> ?P (Suc k) t'"
    proof (cases "g ! i ! k = 1")
      case True
      have "add_at t (int k) c = Inr (t[k := t ! k + c])"
        using k P by (simp add: add_at_in_range mass_def)
      moreover have "mass ?n (tot + real (length (filter (\<lambda>j. g ! i ! j = 1) [0..<k])) * c + c)
          (t[k := t ! k + c])"
        using P k c by (rule mass_bump)
      ultimately show ?thesis using True cl by (simp add: and_then_def algebra_simps)
    next
      case False
      then show ?thesis using cl P by (simp add: and_then_def)
    qed
  qed
  then show ?thesis by simp
qed

lemma count_ones:
  assumes "list_all (\<lambda>c. c = 0 \<or> c = 1) row"
  shows "int (length (filter (\<lambda>j. row ! j = 1) [0..<length row])) = sum_list row"
proof -
  have "length (filter (\<lambda>j. row ! j = 1) [0..<length row])
      = length (filter (\<lambda>c. c = 1) (map (\<lambda>j. row ! j) [0..<length row]))"
    by (simp add: filter_map comp_def)
  also have "\<dots> = length (filter (\<lambda>c. c = 1) row)" by (simp add: map_nth)
  finally have "length (filter (\<lambda>j. row ! j = 1) [0..<length row]) = length (filter (\<lambda>c. c = 1) row)" .
  moreover have "int (length (filter (\<lambda>c. c = 1) row)) = sum_list row"
    using assms by (induction row) auto
  ultimately show ?thesis by simp
qed

lemma damping_bounds: "0 \<le> damping" "damping \<le> 1"
  by (simp_all add: damping_def)

lemma distribute_mass:
  assumes sq: "square g" and bt: "bits g" and i: "i < length g"
    and sc: "length scores = length g" "list_all (\<lambda>x. 0 \<le> x) scores"
    and m: "mass (length g) tot ns"
  shows "\<exists>t. distribute g scores (int i) ns = Inr t
      \<and> mass (length g) (tot + damping * scores ! i) t"
proof -
  let ?n = "length g"
  let ?row = "g ! i"
  have row: "list_get g (int i) = Inr ?row" using i by (simp add: list_get_in_range)
  have s: "list_get scores (int i) = Inr (scores ! i)" using i sc(1) by (simp add: list_get_in_range)
  have s0: "0 \<le> scores ! i" using sc i by (simp add: list_all_length)
  have rb: "list_all (\<lambda>c. c = 0 \<or> c = 1) ?row" using bt i by (simp add: bits_def list_all_length)
  have rl: "length ?row = ?n" using sq i by (rule square_nth)
  have cnt: "int (length (filter (\<lambda>j. ?row ! j = 1) [0..<?n])) = sum_list ?row"
    using count_ones [OF rb] rl by simp
  have npos: "0 < real ?n" using i by auto
  show ?thesis
  proof (cases "sum_list ?row = 0")
    case True
    have "0 \<le> damping * scores ! i / real ?n" using s0 damping_bounds(1) by simp
    from sink_loop [OF m this] obtain t where
      t: "for_each (py_range ?n) (\<lambda>j ns. add_at ns j (damping * scores ! i / real ?n)) ns = Inr t"
        "mass ?n (tot + real ?n * (damping * scores ! i / real ?n)) t" by blast
    have "real ?n * (damping * scores ! i / real ?n) = damping * scores ! i"
      using npos by simp
    then have "mass ?n (tot + damping * scores ! i) t" using t(2) by simp
    moreover have "distribute g scores (int i) ns = Inr t"
      using True row s t(1) by (simp add: distribute_def Let_def and_then_def)
    ultimately show ?thesis by blast
  next
    case False
    define od where "od = sum_list ?row"
    have odpos: "0 < od" using False cnt by (simp add: od_def)
    define share where "share = damping * scores ! i / real_of_int od"
    have "0 \<le> share" using s0 damping_bounds(1) odpos by (simp add: share_def)
    from share_loop [OF sq i m this] obtain t where
      t: "for_each (py_range ?n)
             (\<lambda>j ns. and_then (cell g (int i) j) (\<lambda>b. if b = 1 then add_at ns j share else Inr ns)) ns
           = Inr t"
        "mass ?n (tot + real (length (filter (\<lambda>j. ?row ! j = 1) [0..<?n])) * share) t" by blast
    have "real_of_int (int (length (filter (\<lambda>j. ?row ! j = 1) [0..<?n]))) = real_of_int od"
      using cnt by (simp only: od_def)
    then have "real (length (filter (\<lambda>j. ?row ! j = 1) [0..<?n])) = real_of_int od"
      by simp
    then have "real (length (filter (\<lambda>j. ?row ! j = 1) [0..<?n])) * share = damping * scores ! i"
      using odpos by (simp add: share_def)
    then have "mass ?n (tot + damping * scores ! i) t" using t(2) by simp
    moreover have "distribute g scores (int i) ns = Inr t"
      using False row s t(1) [unfolded share_def od_def]
      by (simp add: distribute_def Let_def and_then_def)
    ultimately show ?thesis by blast
  qed
qed

lemma pagerank_round_mass:
  assumes sq: "square g" and bt: "bits g" and ne: "g \<noteq> []"
    and sc: "mass (length g) tot scores"
  shows "\<exists>t. pagerank_round g scores = Inr t
      \<and> mass (length g) ((1 - damping) + damping * tot) t"
proof -
  let ?n = "length g"
  let ?base = "(1 - damping) / real ?n"
  have npos: "0 < real ?n" using ne by simp
  have len: "length scores = ?n" and nonneg: "list_all (\<lambda>x. 0 \<le> x) scores"
    and tot: "sum_list scores = tot"
    using sc by (simp_all add: mass_def)
  have "0 \<le> ?base" using damping_bounds(2) by simp
  then have start: "mass ?n (1 - damping) (replicate ?n ?base)"
    using npos by (simp add: mass_def sum_list_replicate list_all_length)
  let ?P = "\<lambda>k t. mass ?n ((1 - damping) + damping * sum_list (take k scores)) t"
  have "\<exists>t. for_each (py_range ?n) (distribute g scores) (replicate ?n ?base) = Inr t \<and> ?P ?n t"
  proof (rule for_each_range_rule [where P = ?P])
    show "?P 0 (replicate ?n ?base)" using start by simp
  next
    fix k t assume k: "k < ?n" and P: "?P k t"
    from distribute_mass [OF sq bt k len nonneg P] obtain t' where
      t': "distribute g scores (int k) t = Inr t'"
        "mass ?n ((1 - damping) + damping * sum_list (take k scores) + damping * scores ! k) t'"
      by blast
    have "sum_list (take (Suc k) scores) = sum_list (take k scores) + scores ! k"
      using k len by (simp add: take_Suc_conv_app_nth)
    then have "?P (Suc k) t'" using t'(2) by (simp add: algebra_simps)
    then show "\<exists>t'. distribute g scores (int k) t = Inr t' \<and> ?P (Suc k) t'"
      using t'(1) by blast
  qed
  then obtain t where t: "for_each (py_range ?n) (distribute g scores) (replicate ?n ?base) = Inr t"
    "?P ?n t" by blast
  have "pagerank_round g scores = Inr t"
    using t(1) by (simp add: pagerank_round_def Let_def and_then_def fill_base)
  moreover have "mass ?n ((1 - damping) + damping * tot) t"
    using t(2) len tot by simp
  ultimately show ?thesis by blast
qed

lemma pagerank_rounds_mass:
  assumes sq: "square g" and bt: "bits g" and ne: "g \<noteq> []"
  shows "\<exists>scores. pagerank_rounds g k = Inr scores \<and> mass (length g) 1 scores"
proof (induction k)
  case 0
  have "0 < real (length g)" using ne by simp
  then show ?case by (simp add: mass_def sum_list_replicate list_all_length)
next
  case (Suc k)
  then obtain scores where s: "pagerank_rounds g k = Inr scores" "mass (length g) 1 scores"
    by blast
  from pagerank_round_mass [OF sq bt ne s(2)] obtain t where
    "pagerank_round g scores = Inr t" "mass (length g) ((1 - damping) + damping * 1) t" by blast
  then show ?case using s(1) by (simp add: and_then_def)
qed

lemma result_loop:
  assumes "length scores = n"
  shows "for_each (py_range n)
           (\<lambda>i result. and_then (list_get scores i) (\<lambda>s. Inr (dict_set result i (f s))))
           []
         = Inr (map (\<lambda>i. (int i, f (scores ! i))) [0..<n])"
proof -
  let ?body = "\<lambda>i result. and_then (list_get scores i) (\<lambda>s. Inr (dict_set result i (f s)))"
  let ?P = "\<lambda>k r. r = map (\<lambda>i. (int i, f (scores ! i))) [0..<k]"
  have "\<exists>t. for_each (py_range n) ?body [] = Inr t \<and> ?P n t"
  proof (rule for_each_range_rule [where P = ?P])
    show "?P 0 []" by simp
  next
    fix k t assume k: "k < n" and P: "?P k t"
    have "int k \<notin> fst ` set t" using P by auto
    then show "\<exists>t'. ?body (int k) t = Inr t' \<and> ?P (Suc k) t'"
      using assms k P by (simp add: list_get_in_range and_then_def dict_set_def)
  qed
  then show ?thesis by simp
qed

text \<open>
  C6: with exact arithmetic (the scores are reals here, and every value the loop computes
  from a 0/1 matrix is rational), on a non-empty square 0/1 matrix the raw scores sum to 1
  after every number of iterations, the 20 of \<open>calculate_pagerank\<close> included: a source
  without outbound edges hands \<open>damping * score / N\<close> to each of the \<open>N\<close> nodes, any other
  source \<open>damping * score / out_degree\<close> to each node it follows. Every value of the
  returned mapping lies in \<open>[0, 1]\<close>. Every state of the store is a square 0/1 matrix
  (\<open>reachable_shaped\<close>); with a cell other than 0 and 1 in a row, \<^verbatim>\<open>sum(self.graph[i])\<close>
  is not the number of nodes that \<open>i\<close> follows.
\<close>

theorem pagerank_mass_conserved:
  assumes sq: "square g" and bt: "bits g" and ne: "g \<noteq> []"
  shows "(\<forall>k. \<exists>scores. pagerank_rounds g k = Inr scores \<and> length scores = length g
            \<and> sum_list scores = 1)
      \<and> (\<exists>result. calculate_pagerank g = Inr result \<and> map fst result = py_range (length g)
            \<and> list_all (\<lambda>(i, v). 0 \<le> v \<and> v \<le> 1) result)"
proof -
  have rounds: "\<exists>scores. pagerank_rounds g k = Inr scores \<and> length scores = length g
            \<and> sum_list scores = 1" for k
    using pagerank_rounds_mass [OF sq bt ne, of k] by (auto simp: mass_def)
  from pagerank_rounds_mass [OF sq bt ne, of iterations] obtain scores where
    s: "pagerank_rounds g iterations = Inr scores" "mass (length g) 1 scores" by blast
  have len: "length scores = length g" and nonneg: "list_all (\<lambda>x. 0 \<le> x) scores"
    using s(2) by (simp_all add: mass_def)
  have sne: "scores \<noteq> []" using len ne by auto
  define m where "m = Max (set scores)"
  define max_score where "max_score = (if m = 0 then 1 else m)"
  have mx: "py_max scores = Inr m" using sne by (simp add: m_def py_max_nonempty)
  have le: "x \<le> m" if "x \<in> set scores" for x using that by (simp add: m_def)
  have ge: "0 \<le> x" if "x \<in> set scores" for x using that nonneg by (simp add: list_all_iff)
  have m0: "0 \<le> m" using sne le ge by (metis last_in_set order_trans)
  have bound: "0 \<le> x / max_score \<and> x / max_score \<le> 1" if "x \<in> set scores" for x
  proof (cases "m = 0")
    case True
    then have "x = 0" using le [OF that] ge [OF that] by simp
    then show ?thesis by simp
  next
    case False
    then have "0 < max_score" using m0 by (simp add: max_score_def)
    then show ?thesis using le [OF that] ge [OF that] False by (simp add: max_score_def)
  qed
  define result where "result = map (\<lambda>i. (int i, scores ! i / max_score)) [0..<length g]"
  have "calculate_pagerank g = Inr result"
    using ne s(1) sne mx result_loop [OF len, of "\<lambda>s. s / max_score"]
    by (simp add: calculate_pagerank_def Let_def and_then_def result_def max_score_def)
  moreover have "map fst result = py_range (length g)"
    by (simp add: result_def py_range_def comp_def)
  moreover have "list_all (\<lambda>(i, v). 0 \<le> v \<and> v \<le> 1) result"
    using bound len by (simp add: result_def list_all_iff)
  ultimately show ?thesis using rounds by blast
qed

theorem pagerank_mass_conserved_witness:
  "square [[0, 1], [0, 0]] \<and> bits [[0, 1], [0, 0]]
   \<and> pagerank_rounds [[0, 1], [0, 0]] 1 = Inr [23 / 80, 57 / 80]
   \<and> (\<exists>scores. pagerank_rounds [[0, 1], [0, 0]] 20 = Inr scores \<and> sum_list scores = 1)
   \<and> (\<exists>result. calculate_pagerank [[0, 1], [0, 0]] = Inr result \<and> map fst result = [0, 1])"
proof -
  have h: "square [[0, 1], [0, 0]]" "bits [[0, 1], [0, 0]]" "[[0, 1], [0, 0]] \<noteq> ([] :: graph)"
    by (simp_all add: square_def bits_def)
  have r: "pagerank_rounds [[0, 1], [0, 0]] 1 = Inr [23 / 80, 57 / 80]"
    by code_simp
  have p: "py_range (length [[0, 1], [0, 0 :: int]]) = [0, 1]"
    by (simp add: py_range_def upt_rec)
  from pagerank_mass_conserved [OF h]
  have a: "\<exists>scores. pagerank_rounds [[0, 1], [0, 0]] 20 = Inr scores \<and> sum_list scores = 1"
    by blast
  from pagerank_mass_conserved [OF h]
  have b: "\<exists>result. calculate_pagerank [[0, 1], [0, 0]] = Inr result
      \<and> map fst result = py_range (length [[0, 1], [0, 0 :: int]])"
    by blast
  show ?thesis using h(1,2) r a b unfolding p by blast
qed

section \<open>Facts about double precision\<close>


lemma rne_unique:
  assumes "\<bar>of_int k - y\<bar> < 1 / 2"
  shows "rne y = k"
proof -
  have "\<lfloor>y\<rfloor> = k \<and> y - of_int k < 1 / 2 \<or> \<lfloor>y\<rfloor> = k - 1 \<and> 1 / 2 < y - of_int (k - 1)"
    using assms by (auto simp: abs_less_iff floor_eq_iff)
  then show ?thesis by (auto simp: rne_def Let_def)
qed

lemma rne_of_int [simp]: "rne (of_int k) = k"
  by (rule rne_unique) simp

lemma rne_numeral [simp]: "rne (numeral n) = numeral n"
  using rne_of_int [of "numeral n"] by simp

lemma fl_exponent:
  assumes "2 powi e \<le> \<bar>x\<bar>" "\<bar>x\<bar> < 2 powi (e + 1)"
  shows "fl x = of_int (rne (x / 2 powi (e - 52))) * 2 powi (e - 52)"
proof -
  have pos: "0 < \<bar>x\<bar>" using assms(1) by (smt (verit) zero_less_power_int)
  have "(2 :: real) powr (real_of_int (e + 1)) = 2 powi (e + 1)"
    by (rule powr_real_of_int') simp_all
  then have "(2 :: real) powr (of_int e + 1) = 2 powi (e + 1)" by simp
  moreover have "(2 :: real) powr (of_int e) = 2 powi e" by (simp add: powr_real_of_int')
  ultimately have "\<lfloor>log 2 \<bar>x\<bar>\<rfloor> = e"
    using assms pos floor_log_eq_powr_iff [of "\<bar>x\<bar>" 2 e] by simp
  then show ?thesis using pos by (simp add: fl_def Let_def)
qed


lemma fl_0 [simp]: "fl 0 = 0"
  by (simp add: fl_def)

lemma fl_1 [simp]: "fl 1 = 1"
  using fl_exponent [of 0 1] by simp





lemma fl_eval:
  assumes "2 powi e \<le> \<bar>x\<bar>" "\<bar>x\<bar> < 2 powi (e + 1)"
    and "\<bar>of_int k - x / 2 powi (e - 52)\<bar> < 1 / 2"
  shows "fl x = of_int k * 2 powi (e - 52)"
  using fl_exponent [OF assms(1,2)] rne_unique [OF assms(3)] by simp

lemma sqrt_between:
  assumes "0 \<le> lo" "lo * lo < x" "0 \<le> hi" "x < hi * hi" "0 \<le> x"
  shows "lo < sqrt x" "sqrt x < hi"
proof -
  show "lo < sqrt x" using assms(1,2) by (intro real_less_rsqrt) (simp add: power2_eq_square)
  show "sqrt x < hi" using assms(3,4,5) by (intro real_less_lsqrt) (simp_all add: power2_eq_square)
qed

lemma fl_2 [simp]: "fl 2 = 2"
  using fl_eval [of 1 2 4503599627370496] by simp

lemma fl_3 [simp]: "fl 3 = 3"
  using fl_eval [of 1 3 6755399441055744] by simp


lemma pow_half_3: "pow_half 3 = 3900231685776981 / 2251799813685248"
proof -
  have b: "(7800463371553962 - 1 / 2) / 4503599627370496 < sqrt 3"
      "sqrt 3 < (7800463371553962 + 1 / 2) / 4503599627370496"
    using sqrt_between [of "(7800463371553962 - 1 / 2) / 4503599627370496" 3
        "(7800463371553962 + 1 / 2) / 4503599627370496"]
    by simp_all
  have r: "1 \<le> sqrt 3" "sqrt 3 < 2"
    using sqrt_between [of 1 3 2] by simp_all
  have "fl (sqrt 3) = of_int 7800463371553962 * 2 powi (0 - 52)"
  proof (rule fl_eval)
    show "2 powi 0 \<le> \<bar>sqrt 3\<bar>" "\<bar>sqrt 3\<bar> < 2 powi (0 + 1)" using r by simp_all
    define t where "t = sqrt 3 * 4503599627370496"
    have "7800463371553962 - 1 / 2 < t" "t < 7800463371553962 + 1 / 2"
      using b by (simp_all add: t_def field_simps)
    then have "\<bar>7800463371553962 - t\<bar> < 1 / 2" by linarith
    then show "\<bar>of_int 7800463371553962 - sqrt 3 / 2 powi (0 - 52)\<bar> < 1 / 2"
      by (simp add: t_def)
  qed
  then show ?thesis by (simp add: pow_half_def)
qed

lemma fl_4_10: "fl (4 / 10) = 3602879701896397 / 9007199254740992"
  using fl_eval [of "- 2" "4 / 10" 7205759403792794] by simp

lemma fl_6_10: "fl (6 / 10) = 5404319552844595 / 9007199254740992"
  using fl_eval [of "- 1" "6 / 10" 5404319552844595] by simp

lemma fl_2_5: "fl (2 / 5) = 3602879701896397 / 9007199254740992"
  using fl_4_10 by simp

lemma fl_3_5: "fl (3 / 5) = 5404319552844595 / 9007199254740992"
  using fl_6_10 by simp



lemma cosine_similarity_size_3: "cosine_similarity {''a'', ''b'', ''c''} {''a'', ''b'', ''c''} = 1 + 1 / 2 ^ 52"
proof -
  have d: "fmul (3900231685776981 / 2251799813685248) (3900231685776981 / 2251799813685248)
      = 6755399441055743 / 2251799813685248"
    unfolding fmul_def using fl_eval [of 1 "3900231685776981 / 2251799813685248 * (3900231685776981 / 2251799813685248)" 6755399441055743]
    by simp
  have q: "fdiv 3 (6755399441055743 / 2251799813685248) = 4503599627370497 / 4503599627370496"
    unfolding fdiv_def using fl_eval [of 0 "3 / (6755399441055743 / 2251799813685248)" 4503599627370497]
    by simp
  show ?thesis
    by (simp add: cosine_similarity_def Let_def py_float_def pow_half_3 d q)
qed



section \<open>Recommendations\<close>









text \<open>The rounding decides what is returned: two users who follow nobody and share three
  interests, with the threshold \<^verbatim>\<open>0.4\<close>. The cosine similarity is the double above 1, the
  score \<^verbatim>\<open>0.4 * cosine\<close> is \<^verbatim>\<open>0.40000000000000013\<close>, and the candidate is returned; in
  exact arithmetic the score would be the threshold and the list empty.\<close>

lemma recommend_rounding_example:
  "get_recommendations [[0, 0], [0, 0]] (\<lambda>i. Some [''a'', ''b'', ''c'']) 0 (fl (4 / 10))
     = Inr [(1, 1801439850948199 / 4503599627370496)]"
proof -
  have m: "fl (3602879701896397 / 9007199254740992 * (4503599627370497 / 4503599627370496))
      = 1801439850948199 / 4503599627370496"
    using fl_eval [of "- 2" "3602879701896397 / 9007199254740992 * (4503599627370497 / 4503599627370496)"
        7205759403792796]
    by simp
  have a: "fl (1801439850948199 / 4503599627370496) = 1801439850948199 / 4503599627370496"
    using fl_eval [of "- 2" "1801439850948199 / 4503599627370496" 7205759403792796] by simp
  have s: "fadd (fmul (fl (3 / 5)) 0) (fmul (fl (2 / 5)) (4503599627370497 / 4503599627370496))
      = 1801439850948199 / 4503599627370496"
    unfolding fadd_def fmul_def fl_2_5
    by (simp only: mult_zero_right fl_0 add_0_left m a)
  have gt: "fl (2 / 5) < 1801439850948199 / 4503599627370496"
    by (simp add: fl_2_5)
  show ?thesis
    using gt
    by (simp add: get_recommendations_def get_following_def py_range_def upt_rec cell_def
      list_get_def norm_index_def and_then_def recommend_step_def jaccard_similarity_def
      cosine_similarity_size_3 s Let_def)
qed

section \<open>Cosine similarity of a set with itself\<close>




end
